theory Spec2Isabelle
  imports Complex_Main "HOL-Library.Sublist" "HOL-Library.Log_Nat"
begin

section \<open>Numbers of the pages\<close>

text \<open>
  The pages are JavaScript, whose numbers are the binary64 values of IEEE 754: the finite
  values, the two infinities and NaN. A finite value is the rational it denotes; the two
  zeros are one value, \<open>Num 0\<close>. Nothing keeps a \<open>Num\<close> from holding a rational that
  is not a binary64 value, so what is proved for every \<open>number\<close> holds for the values a
  page can hold; \<open>binary64\<close> below says which rationals are such values.
\<close>

datatype number = Num rat | PosInfinity | NegInfinity | NaN

text \<open>
  Rounding to binary64. For \<open>0 < x\<close>, \<open>ilog2 x\<close> is the exponent \<open>l\<close> with
  \<open>2 powi l \<le> x < 2 powi (l + 1)\<close>. The significand has 53 bits, so the last bit of
  the result has the exponent \<open>l - 52\<close>, and not less than \<open>- 1074\<close>, where the
  subnormal values begin. \<open>x\<close> is rounded to the nearest multiple of that bit, a tie
  going to the even multiple; a result of \<open>2 ^ 1024\<close> or more is an infinity.
\<close>

definition ilog2 :: "rat \<Rightarrow> int" where
  "ilog2 x = (if 1 \<le> x then bitlen \<lfloor>x\<rfloor> - 1 else - bitlen (\<lceil>1 / x\<rceil> - 1))"

definition roundHalfEven :: "rat \<Rightarrow> int" where
  "roundHalfEven y =
     (let f = \<lfloor>y\<rfloor>; r = y - of_int f
      in if r < 1 / 2 then f else if 1 / 2 < r then f + 1 else if even f then f else f + 1)"

definition overflowThreshold :: rat where
  "overflowThreshold = 2 ^ 1024"

definition roundPositive :: "rat \<Rightarrow> number" where
  "roundPositive x =
     (let e = max (ilog2 x - 52) (- 1074);
          r = of_int (roundHalfEven (x / 2 powi e)) * 2 powi e
      in if overflowThreshold \<le> r then PosInfinity else Num r)"

fun js_negate :: "number \<Rightarrow> number" where
  "js_negate (Num x) = Num (- x)"
| "js_negate PosInfinity = NegInfinity"
| "js_negate NegInfinity = PosInfinity"
| "js_negate NaN = NaN"

definition round64 :: "rat \<Rightarrow> number" where
  "round64 x =
     (if x = 0 then Num 0 else if 0 < x then roundPositive x
      else js_negate (roundPositive (- x)))"

definition binary64 :: "rat \<Rightarrow> bool" where
  "binary64 q \<longleftrightarrow> round64 q = Num q"

text \<open>
  The operators \<open>+\<close>, \<open>-\<close> and \<open>*\<close> of the source: on finite values the exact
  result, rounded; otherwise the rules of IEEE 754 for infinities and NaN.
\<close>

fun js_plus :: "number \<Rightarrow> number \<Rightarrow> number" where
  "js_plus (Num x) (Num y) = round64 (x + y)"
| "js_plus NaN b = NaN"
| "js_plus a NaN = NaN"
| "js_plus PosInfinity NegInfinity = NaN"
| "js_plus NegInfinity PosInfinity = NaN"
| "js_plus PosInfinity b = PosInfinity"
| "js_plus a PosInfinity = PosInfinity"
| "js_plus NegInfinity b = NegInfinity"
| "js_plus a NegInfinity = NegInfinity"

definition js_minus :: "number \<Rightarrow> number \<Rightarrow> number" where
  "js_minus a b = js_plus a (js_negate b)"

fun negative :: "number \<Rightarrow> bool" where
  "negative (Num x) = (x < 0)"
| "negative NegInfinity = True"
| "negative a = False"

fun js_times :: "number \<Rightarrow> number \<Rightarrow> number" where
  "js_times (Num x) (Num y) = round64 (x * y)"
| "js_times NaN b = NaN"
| "js_times a NaN = NaN"
| "js_times a b =
     (if a = Num 0 \<or> b = Num 0 then NaN
      else if negative a = negative b then PosInfinity else NegInfinity)"

text \<open>
  The operator \<open>/\<close> of the source. \<open>js_quotient\<close> is the quotient by a divisor other
  than zero. By zero JavaScript does not throw, it gives an infinity or NaN; \<open>js_divide\<close>
  returns \<open>None\<close> there, so that a computation that divides by zero is visible as
  \<open>None\<close> and that no division by zero happens is something to prove.
\<close>

fun js_quotient :: "number \<Rightarrow> number \<Rightarrow> number" where
  "js_quotient (Num x) (Num y) = round64 (x / y)"
| "js_quotient NaN b = NaN"
| "js_quotient a NaN = NaN"
| "js_quotient (Num x) b = Num 0"
| "js_quotient a (Num y) = (if negative a = (y < 0) then PosInfinity else NegInfinity)"
| "js_quotient a b = NaN"

definition js_divide :: "number \<Rightarrow> number \<Rightarrow> number option" where
  "js_divide a b = (if b = Num 0 then None else Some (js_quotient a b))"

text \<open>The comparisons \<open>>\<close> and \<open><=\<close>, both false when an operand is NaN.\<close>

fun js_greater :: "number \<Rightarrow> number \<Rightarrow> bool" where
  "js_greater (Num x) (Num y) = (y < x)"
| "js_greater NaN b = False"
| "js_greater a NaN = False"
| "js_greater PosInfinity b = (b \<noteq> PosInfinity)"
| "js_greater a NegInfinity = (a \<noteq> NegInfinity)"
| "js_greater a b = False"

fun js_lessEq :: "number \<Rightarrow> number \<Rightarrow> bool" where
  "js_lessEq (Num x) (Num y) = (x \<le> y)"
| "js_lessEq NaN b = False"
| "js_lessEq a NaN = False"
| "js_lessEq NegInfinity b = True"
| "js_lessEq a PosInfinity = True"
| "js_lessEq a b = False"

text \<open>
  \<open>Math.round\<close> gives the nearest integer, a tie going up, and leaves the infinities and
  NaN as they are. It is exact: the nearest integer of a binary64 value is one.
\<close>

fun Math_round :: "number \<Rightarrow> number" where
  "Math_round (Num x) = Num (of_int \<lfloor>x + 1 / 2\<rfloor>)"
| "Math_round a = a"

section \<open>Orders page: the price breakdown\<close>

record order_item =
  productName :: string
  quantity :: number
  price :: number

record order =
  orderId :: string
  paymentMethod :: string
  totalAmount :: number
  items :: "order_item list"

text \<open>
  What the component \<open>Orders\<close> holds when \<open>calculatePriceInfo\<close> runs: its four state
  variables and \<open>extraCharge\<close>, read from the cart context.
\<close>

record orders_page =
  orders :: "order list"
  loading :: bool
  error :: "string option"
  expandedOrder :: "string option"
  extraCharge :: number

record price_info =
  originalPrice :: number
  discount :: number
  discountPercentage :: number
  subtotal :: number
  shipping :: number
  totalItems :: number

text \<open>
  \<open>calculatePriceInfo\<close> calls no setter and assigns to nothing outside its body, so the
  model takes the page and the order and returns the record only.
\<close>

definition calculatePriceInfo :: "orders_page \<Rightarrow> order \<Rightarrow> price_info option" where
  "calculatePriceInfo pg ord =
     (let shipping = (if paymentMethod ord = ''COD'' then Num 50 else Num 0);
          subtotal = js_minus (totalAmount ord) shipping;
          totalItems = foldl (\<lambda>sum item. js_plus sum (quantity item)) (Num 0) (items ord);
          discount = js_times (extraCharge pg) totalItems;
          originalPrice = js_plus subtotal discount
      in map_option
           (\<lambda>discountPercentage.
              \<lparr>originalPrice = originalPrice, discount = discount,
               discountPercentage = discountPercentage, subtotal = subtotal,
               shipping = shipping, totalItems = totalItems\<rparr>)
           (if js_greater originalPrice (Num 0)
            then map_option (\<lambda>q. Math_round (js_times q (Num 100)))
                   (js_divide discount originalPrice)
            else Some (Num 0)))"

text \<open>The order of the worked example and the page it is shown on.\<close>

definition exampleOrder :: order where
  "exampleOrder =
     \<lparr>orderId = ''ORD-1'', paymentMethod = ''COD'', totalAmount = Num 450,
      items = [\<lparr>productName = ''shirt'', quantity = Num 2, price = Num 150\<rparr>,
               \<lparr>productName = ''cap'', quantity = Num 1, price = Num 100\<rparr>]\<rparr>"

definition examplePage :: orders_page where
  "examplePage =
     \<lparr>orders = [exampleOrder], loading = False, error = None, expandedOrder = None,
      extraCharge = Num 30\<rparr>"

text \<open>
  An order with decimal prices: 1049.97 paid COD for three jackets of 333.33, on a page
  with a surcharge of 19.99. Each amount is the binary64 value of its decimal literal.
\<close>

definition decimalOrder :: order where
  "decimalOrder =
     \<lparr>orderId = ''ORD-2'', paymentMethod = ''COD'', totalAmount = round64 (104997 / 100),
      items = [\<lparr>productName = ''jacket'', quantity = Num 3, price = round64 (33333 / 100)\<rparr>]\<rparr>"

definition decimalPage :: orders_page where
  "decimalPage =
     \<lparr>orders = [decimalOrder], loading = False, error = None, expandedOrder = None,
      extraCharge = round64 (1999 / 100)\<rparr>"

text \<open>An order with amounts near the largest binary64 value: 1e308, and a surcharge of 1e308.\<close>

definition overflowOrder :: order where
  "overflowOrder =
     \<lparr>orderId = ''ORD-3'', paymentMethod = ''ONLINE'', totalAmount = round64 (10 ^ 308),
      items = [\<lparr>productName = ''ship'', quantity = Num 2, price = round64 (10 ^ 308)\<rparr>]\<rparr>"

definition overflowPage :: orders_page where
  "overflowPage =
     \<lparr>orders = [overflowOrder], loading = False, error = None, expandedOrder = None,
      extraCharge = round64 (10 ^ 308)\<rparr>"

section \<open>Form values and the two regular expressions\<close>

text \<open>
  A form value is the list of its code units, as \<open>char\<close>s. The expressions of the pages
  are anchored at both ends and are sequences of character classes, each taken once or
  one or more times; \<open>test\<close> decides whether the whole value matches such a
  sequence. \<open>whitespace\<close> is the class \<open>\s\<close>, which is also what \<open>trim\<close> strips.
\<close>

datatype quantifier = Once | OneOrMore

type_synonym regex = "((char \<Rightarrow> bool) \<times> quantifier) list"

fun test :: "regex \<Rightarrow> string \<Rightarrow> bool" where
  "test [] s = (s = [])"
| "test ((cls, q) # rest) [] = False"
| "test ((cls, Once) # rest) (c # cs) = (cls c \<and> test rest cs)"
| "test ((cls, OneOrMore) # rest) (c # cs) =
     (cls c \<and> (test ((cls, OneOrMore) # rest) cs \<or> test rest cs))"

definition whitespace :: "char \<Rightarrow> bool" where
  "whitespace c = (of_char c \<in> {9, 10, 11, 12, 13, 32, 160 :: nat})"

definition digit :: "char \<Rightarrow> bool" where
  "digit c = (48 \<le> (of_char c :: nat) \<and> (of_char c :: nat) \<le> 57)"

definition trim :: "string \<Rightarrow> string" where
  "trim s = rev (dropWhile whitespace (rev (dropWhile whitespace s)))"

text \<open>\<^verbatim>\<open>/^[^\s@]+@[^\s@]+\.[^\s@]+$/\<close>\<close>

definition emailRegex :: regex where
  "emailRegex =
     [(\<lambda>c. \<not> whitespace c \<and> c \<noteq> CHR ''@'', OneOrMore), (\<lambda>c. c = CHR ''@'', Once),
      (\<lambda>c. \<not> whitespace c \<and> c \<noteq> CHR ''@'', OneOrMore), (\<lambda>c. c = CHR ''.'', Once),
      (\<lambda>c. \<not> whitespace c \<and> c \<noteq> CHR ''@'', OneOrMore)]"

text \<open>\<^verbatim>\<open>/^[\d\s\-+()]+$/\<close>\<close>

definition phoneRegex :: regex where
  "phoneRegex = [(\<lambda>c. digit c \<or> whitespace c \<or> c \<in> set ''-+()'', OneOrMore)]"

text \<open>
  What a submit handler did: the page it left, the calls it made to the backend (each
  with its arguments, in order) and whether an exception left the handler uncaught.
\<close>

record 'page handled =
  page :: 'page
  calls :: "string list list"
  uncaught :: bool

section \<open>Login page\<close>

record login_form =
  email :: string
  password :: string

record login_errors =
  email_error :: "string option"
  password_error :: "string option"
  form_error :: "string option"

record login_page =
  formData :: login_form
  errors :: login_errors
  isSubmitting :: bool
  loginAttempts :: int
  isBlocked :: bool
  blockTimer :: int

definition noErrors :: login_errors where
  "noErrors = \<lparr>email_error = None, password_error = None, form_error = None\<rparr>"

definition initialLogin :: login_page where
  "initialLogin =
     \<lparr>formData = \<lparr>email = [], password = []\<rparr>, errors = noErrors, isSubmitting = False,
      loginAttempts = 0, isBlocked = False, blockTimer = 0\<rparr>"

subsection \<open>The two effects and the renders they cause\<close>

text \<open>
  An effect sees the state \<open>r\<close> of the render it belongs to and queues its updates on
  the pending state \<open>q\<close>. The rate-limit effect depends on \<open>loginAttempts\<close>, the
  countdown effect on \<open>isBlocked\<close> and \<open>blockTimer\<close>. In its first branch the countdown
  effect starts the one-second interval, which is cleared when the effect runs again; the
  interval is the event \<open>tick\<close> below.
\<close>

definition rateLimitEffect :: "login_page \<Rightarrow> login_page \<Rightarrow> login_page" where
  "rateLimitEffect r q =
     (if loginAttempts r \<ge> 5 then q\<lparr>isBlocked := True, blockTimer := 300\<rparr> else q)"

definition countdownEffect :: "login_page \<Rightarrow> login_page \<Rightarrow> login_page" where
  "countdownEffect r q =
     (if isBlocked r \<and> blockTimer r > 0 then q
      else if blockTimer r = 0 then q\<lparr>isBlocked := False, loginAttempts := 0\<rparr>
      else q)"

text \<open>
  After the render of \<open>r\<close>, which follows the render of \<open>prev\<close>, the effects whose
  dependencies changed run, in the order of the source.
\<close>

definition runEffects :: "login_page \<Rightarrow> login_page \<Rightarrow> login_page" where
  "runEffects prev r =
     (let q = (if loginAttempts r \<noteq> loginAttempts prev then rateLimitEffect r r else r)
      in if isBlocked r \<noteq> isBlocked prev \<or> blockTimer r \<noteq> blockTimer prev
         then countdownEffect r q else q)"

text \<open>The effects write these three variables only; equal values cause no new render.\<close>

definition unchanged :: "login_page \<Rightarrow> login_page \<Rightarrow> bool" where
  "unchanged q r \<longleftrightarrow>
     loginAttempts q = loginAttempts r \<and> isBlocked q = isBlocked r \<and>
     blockTimer q = blockTimer r"

function render :: "login_page \<Rightarrow> login_page \<Rightarrow> login_page" where
  "render prev r =
     (let q = runEffects prev r in if unchanged q r then r else render r q)"
  by pat_completeness auto
termination
proof (relation "measure (\<lambda>(prev, r). if unchanged (runEffects prev r) r then 0 else 1)")
  show "wf (measure (\<lambda>(prev, r). if unchanged (runEffects prev r) r then 0 else 1))"
    by simp
next
  fix prev r q
  assume "q = runEffects prev r" "\<not> unchanged q r"
  then show "((r, q), (prev, r))
      \<in> measure (\<lambda>(prev, r). if unchanged (runEffects prev r) r then 0 else 1)"
    by (auto simp add: runEffects_def rateLimitEffect_def countdownEffect_def unchanged_def
        Let_def split: if_splits)
qed

declare render.simps [simp del]

text \<open>On mount every effect runs once, on the initial state.\<close>

definition mounted :: login_page where
  "mounted =
     (let r = initialLogin; q = countdownEffect r (rateLimitEffect r r)
      in if unchanged q r then r else render r q)"

text \<open>
  The interval exists exactly while the committed state is blocked with a positive timer
  (the countdown effect ran last on these values of its dependencies); its callback is
  \<open>setBlockTimer((prev) => prev - 1)\<close>. Without an interval nothing fires.
\<close>

definition tick :: "login_page \<Rightarrow> login_page" where
  "tick s =
     (if isBlocked s \<and> blockTimer s > 0 then render s (s\<lparr>blockTimer := blockTimer s - 1\<rparr>)
      else s)"

subsection \<open>Validation and the handlers\<close>

definition validateForm_login :: "login_page \<Rightarrow> bool \<times> login_page" where
  "validateForm_login s =
     (let newErrors = noErrors;
          newErrors =
            (if trim (email (formData s)) = []
             then newErrors\<lparr>email_error := Some ''Email is required''\<rparr>
             else if \<not> test emailRegex (email (formData s))
             then newErrors\<lparr>email_error := Some ''Invalid email format''\<rparr>
             else newErrors);
          newErrors =
            (if password (formData s) = []
             then newErrors\<lparr>password_error := Some ''Password is required''\<rparr>
             else if length (password (formData s)) < 6
             then newErrors\<lparr>password_error := Some ''Password must be at least 6 characters''\<rparr>
             else newErrors)
      in (email_error newErrors = None \<and> password_error newErrors = None \<and>
          form_error newErrors = None,
          s\<lparr>errors := newErrors\<rparr>))"

text \<open>The inputs of the form are named \<open>email\<close> and \<open>password\<close>.\<close>

definition handleChange_login :: "string \<Rightarrow> string \<Rightarrow> login_page \<Rightarrow> login_page" where
  "handleChange_login name val s =
     (let s1 = s\<lparr>formData :=
                  (if name = ''email'' then (formData s)\<lparr>email := val\<rparr>
                   else if name = ''password'' then (formData s)\<lparr>password := val\<rparr>
                   else formData s)\<rparr>;
          shown = (if name = ''email'' then email_error (errors s)
                   else if name = ''password'' then password_error (errors s)
                   else if name = ''form'' then form_error (errors s)
                   else None)
      in if shown \<noteq> None \<and> shown \<noteq> Some []
         then s1\<lparr>errors :=
                 (if name = ''email'' then (errors s)\<lparr>email_error := None, form_error := None\<rparr>
                  else if name = ''password''
                  then (errors s)\<lparr>password_error := None, form_error := None\<rparr>
                  else (errors s)\<lparr>form_error := None\<rparr>)\<rparr>
         else s1)"

text \<open>
  The backend's answer to \<open>login\<close>: it resolves, or it rejects with an error whose
  \<open>message\<close> is a string or is missing.
\<close>

datatype login_outcome = Resolved | Rejected "string option"

text \<open>
  The text chosen in the \<open>catch\<close> block; \<open>None\<close> when \<open>err.message.includes\<close> is
  reached with no message, which throws.
\<close>

definition errorMessage :: "bool \<Rightarrow> string option \<Rightarrow> string option" where
  "errorMessage onLine message =
     (if \<not> onLine then Some ''No internet connection. Please check your network.''
      else if message = Some ''User not found'' then Some ''No account found with this email.''
      else if message = Some ''Invalid password'' then Some ''Incorrect password.''
      else case message of
             None \<Rightarrow> None
           | Some m \<Rightarrow>
               if sublist ''Too many'' m
               then Some ''Too many login attempts. Please try again later.''
               else Some ''Failed to log in. Please check your credentials.'')"

text \<open>
  The two ways the \<open>try\<close> statement of \<open>handleSubmit\<close> ends, each followed by the
  \<open>finally\<close> block. \<open>s2\<close> is the page as it is when the backend answers. When
  \<open>login\<close> resolves, the attempts are set to 0; when it rejects, they are incremented
  (by the updater \<open>prev => prev + 1\<close>, which reads the attempts of \<open>s2\<close>), and the
  message is shown unless choosing it throws.
\<close>

definition loginResolved :: "login_page \<Rightarrow> login_page" where
  "loginResolved s2 = render s2 (s2\<lparr>loginAttempts := 0, isSubmitting := False\<rparr>)"

definition loginRejected :: "bool \<Rightarrow> string option \<Rightarrow> login_page \<Rightarrow> login_page \<times> bool" where
  "loginRejected onLine message s2 =
     (let s3 = s2\<lparr>loginAttempts := loginAttempts s2 + 1\<rparr>
      in case errorMessage onLine message of
           Some text \<Rightarrow>
             (render s2 (s3\<lparr>errors := noErrors\<lparr>form_error := Some text\<rparr>,
                            isSubmitting := False\<rparr>), False)
         | None \<Rightarrow> (render s2 (s3\<lparr>isSubmitting := False\<rparr>), True))"

text \<open>
  \<open>handleSubmit\<close> of the login form is asynchronous. \<open>beginSubmit\<close> is what it does
  when the submit event arrives, up to the call of \<open>login\<close>: it tests \<open>isBlocked\<close>
  and the form, and nothing else (it does not test \<open>isSubmitting\<close>). What follows the
  \<open>await\<close> is \<open>loginResolved\<close> or \<open>loginRejected\<close>, run on the page as it is when
  the backend answers.
\<close>

definition beginSubmit :: "login_page \<Rightarrow> login_page handled" where
  "beginSubmit s =
     (if isBlocked s then \<lparr>page = s, calls = [], uncaught = False\<rparr>
      else case validateForm_login s of
        (False, s1) \<Rightarrow> \<lparr>page = s1, calls = [], uncaught = False\<rparr>
      | (True, s1) \<Rightarrow>
          \<lparr>page = s1\<lparr>isSubmitting := True, errors := noErrors\<rparr>,
           calls = [[email (formData s), password (formData s)]], uncaught = False\<rparr>)"

text \<open>
  A run of \<open>handleSubmit\<close> in which the backend answers before any other event, with
  \<open>navigator.onLine\<close> and the answer given. Runs that overlap are events of
  \<open>reachable\<close> below.
\<close>

definition handleSubmit_login ::
    "bool \<Rightarrow> login_outcome \<Rightarrow> login_page \<Rightarrow> login_page handled" where
  "handleSubmit_login onLine outcome s =
     (let begun = beginSubmit s
      in if calls begun = [] then begun
         else case outcome of
                Resolved \<Rightarrow> begun\<lparr>page := loginResolved (page begun)\<rparr>
              | Rejected message \<Rightarrow>
                  (case loginRejected onLine message (page begun) of
                     (s4, threw) \<Rightarrow> begun\<lparr>page := s4, uncaught := threw\<rparr>))"

text \<open>A run of submits in turn, each with its \<open>navigator.onLine\<close> and its answer.\<close>

fun submitEach :: "(bool \<times> login_outcome) list \<Rightarrow> login_page \<Rightarrow> login_page" where
  "submitEach [] s = s"
| "submitEach ((onLine, outcome) # rest) s =
     submitEach rest (page (handleSubmit_login onLine outcome s))"

text \<open>
  The states the page can be in, each with the number of calls of \<open>login\<close> that the
  backend has not answered yet: after mount, any sequence of changes of the form, submit
  events, answers of the backend to a pending call, and ticks of the interval. A submit
  event is taken whatever the page shows, as the handler is the only test in the code; the
  form's controls are disabled while \<open>isSubmitting\<close> or \<open>isBlocked\<close> holds.
\<close>

inductive reachable :: "login_page \<Rightarrow> nat \<Rightarrow> bool" where
  reachable_mounted: "reachable mounted 0"
| reachable_change: "reachable s n \<Longrightarrow> reachable (handleChange_login name val s) n"
| reachable_submit:
    "reachable s n \<Longrightarrow> reachable (page (beginSubmit s)) (n + length (calls (beginSubmit s)))"
| reachable_resolved: "reachable s (Suc n) \<Longrightarrow> reachable (loginResolved s) n"
| reachable_rejected:
    "reachable s (Suc n) \<Longrightarrow> reachable (fst (loginRejected onLine message s)) n"
| reachable_tick: "reachable s n \<Longrightarrow> reachable (tick s) n"

text \<open>
  The form renders its two inputs and its submit button with
  \<^verbatim>\<open>disabled={isSubmitting || isBlocked}\<close>. \<open>reachableByControls\<close> are the states of the
  page when changes and submit events come through these controls only, that is while
  they are enabled.
\<close>

definition controlsDisabled :: "login_page \<Rightarrow> bool" where
  "controlsDisabled s \<longleftrightarrow> isSubmitting s \<or> isBlocked s"

inductive reachableByControls :: "login_page \<Rightarrow> nat \<Rightarrow> bool" where
  byControls_mounted: "reachableByControls mounted 0"
| byControls_change:
    "reachableByControls s n \<Longrightarrow> \<not> controlsDisabled s \<Longrightarrow>
       reachableByControls (handleChange_login name val s) n"
| byControls_submit:
    "reachableByControls s n \<Longrightarrow> \<not> controlsDisabled s \<Longrightarrow>
       reachableByControls (page (beginSubmit s)) (n + length (calls (beginSubmit s)))"
| byControls_resolved:
    "reachableByControls s (Suc n) \<Longrightarrow> reachableByControls (loginResolved s) n"
| byControls_rejected:
    "reachableByControls s (Suc n) \<Longrightarrow>
       reachableByControls (fst (loginRejected onLine message s)) n"
| byControls_tick: "reachableByControls s n \<Longrightarrow> reachableByControls (tick s) n"

text \<open>
  \<open>settled\<close>: blocked after the fifth failure with the timer running, or not blocked with
  fewer than five failures and no timer. \<open>coherent\<close> is the part of it that overlapping
  submits keep: the timer runs exactly while the page is blocked.
\<close>

definition settled :: "login_page \<Rightarrow> bool" where
  "settled s \<longleftrightarrow>
     (if isBlocked s then loginAttempts s = 5 \<and> 1 \<le> blockTimer s \<and> blockTimer s \<le> 300
      else 0 \<le> loginAttempts s \<and> loginAttempts s \<le> 4 \<and> blockTimer s = 0)"

definition coherent :: "login_page \<Rightarrow> bool" where
  "coherent s \<longleftrightarrow>
     0 \<le> loginAttempts s \<and>
     (if isBlocked s then 1 \<le> blockTimer s \<and> blockTimer s \<le> 300
      else loginAttempts s \<le> 4 \<and> blockTimer s = 0)"

text \<open>
  A form that passes validation, five submits of it in turn that the backend rejects, and
  the page after them.
\<close>

definition filledLogin :: login_page where
  "filledLogin =
     handleChange_login ''password'' ''secret1''
       (handleChange_login ''email'' ''a@b.co'' mounted)"

definition fiveRejections :: "(bool \<times> login_outcome) list" where
  "fiveRejections =
     [(True, Rejected (Some ''Invalid password'')), (True, Rejected (Some ''Invalid password'')),
      (True, Rejected (Some ''User not found'')), (False, Rejected (Some ''Failed to fetch'')),
      (True, Rejected None)]"

definition blockedLogin :: login_page where
  "blockedLogin = submitEach fiveRejections filledLogin"

definition threeFailures :: login_page where
  "threeFailures = submitEach (take 3 fiveRejections) filledLogin"

text \<open>
  Two submits that overlap: after four failures in turn, a submit event and, while its
  call is pending, a second one; the backend then rejects the first call, and rejects or
  accepts the second.
\<close>

definition fourFailures :: login_page where
  "fourFailures = submitEach (take 4 fiveRejections) filledLogin"

definition onePending :: login_page where
  "onePending = page (beginSubmit fourFailures)"

definition twoPending :: login_page where
  "twoPending = page (beginSubmit onePending)"

definition firstRejected :: login_page where
  "firstRejected = fst (loginRejected True (Some ''Invalid password'') twoPending)"

definition bothRejected :: login_page where
  "bothRejected = fst (loginRejected True (Some ''Invalid password'') firstRejected)"

section \<open>Signup page\<close>

record signup_form =
  firstName :: string
  lastName :: string
  email_signup :: string
  password_signup :: string
  phone :: string

record password_strength =
  score :: int
  feedback :: string

record signup_errors =
  firstName_error :: "string option"
  lastName_error :: "string option"
  email_error_signup :: "string option"
  password_error_signup :: "string option"
  phone_error :: "string option"
  form_error_signup :: "string option"

record signup_page =
  formData_signup :: signup_form
  showPassword :: bool
  errors_signup :: signup_errors
  isSubmitting_signup :: bool
  passwordStrength :: password_strength

definition noErrors_signup :: signup_errors where
  "noErrors_signup =
     \<lparr>firstName_error = None, lastName_error = None, email_error_signup = None,
      password_error_signup = None, phone_error = None, form_error_signup = None\<rparr>"

definition validateForm_signup :: "signup_page \<Rightarrow> bool \<times> signup_page" where
  "validateForm_signup s =
     (let f = formData_signup s;
          newErrors = noErrors_signup;
          newErrors =
            (if trim (firstName f) = [] then newErrors\<lparr>firstName_error := Some ''Required''\<rparr>
             else newErrors);
          newErrors =
            (if trim (lastName f) = [] then newErrors\<lparr>lastName_error := Some ''Required''\<rparr>
             else newErrors);
          newErrors =
            (if trim (email_signup f) = []
             then newErrors\<lparr>email_error_signup := Some ''Required''\<rparr>
             else if \<not> test emailRegex (email_signup f)
             then newErrors\<lparr>email_error_signup := Some ''Invalid email format''\<rparr>
             else newErrors);
          newErrors =
            (if password_signup f = []
             then newErrors\<lparr>password_error_signup := Some ''Required''\<rparr>
             else if score (passwordStrength s) < 3
             then newErrors\<lparr>password_error_signup := Some ''Password not strong enough''\<rparr>
             else newErrors);
          newErrors =
            (if trim (phone f) = [] then newErrors\<lparr>phone_error := Some ''Required''\<rparr>
             else if \<not> test phoneRegex (phone f)
             then newErrors\<lparr>phone_error := Some ''Invalid phone format''\<rparr>
             else newErrors)
      in (firstName_error newErrors = None \<and> lastName_error newErrors = None \<and>
          email_error_signup newErrors = None \<and> password_error_signup newErrors = None \<and>
          phone_error newErrors = None \<and> form_error_signup newErrors = None,
          s\<lparr>errors_signup := newErrors\<rparr>))"

text \<open>
  The backend's answer to \<open>signup\<close>: it resolves (the page then navigates away), or it
  rejects with an error whose \<open>message\<close> is a string or is missing.
\<close>

datatype signup_outcome = SignedUp | SignupRejected "string option"

definition handleSubmit_signup :: "signup_outcome \<Rightarrow> signup_page \<Rightarrow> signup_page handled" where
  "handleSubmit_signup outcome s =
     (case validateForm_signup s of
        (valid, s1) \<Rightarrow>
          if \<not> valid \<or> isSubmitting_signup s
          then \<lparr>page = s1, calls = [], uncaught = False\<rparr>
          else
            (let s2 = s1\<lparr>isSubmitting_signup := True\<rparr>;
                 f = formData_signup s;
                 call = [firstName f, lastName f, email_signup f, password_signup f, phone f]
             in case outcome of
                  SignedUp \<Rightarrow>
                    \<lparr>page = s2\<lparr>isSubmitting_signup := False\<rparr>, calls = [call],
                     uncaught = False\<rparr>
                | SignupRejected message \<Rightarrow>
                    \<lparr>page = s2\<lparr>errors_signup := noErrors_signup
                                  \<lparr>form_error_signup :=
                                     Some (case message of
                                             None \<Rightarrow> ''Signup failed. Please try again.''
                                           | Some m \<Rightarrow>
                                               if m = [] then ''Signup failed. Please try again.''
                                               else m)\<rparr>,
                               isSubmitting_signup := False\<rparr>,
                     calls = [call], uncaught = False\<rparr>))"

text \<open>A signup form that passes validation.\<close>

definition filledSignup :: signup_page where
  "filledSignup =
     \<lparr>formData_signup =
        \<lparr>firstName = ''Asha'', lastName = ''Rao'', email_signup = ''a@b.co'',
         password_signup = ''Secret12'', phone = ''+91 (0) 23-4''\<rparr>,
      showPassword = False, errors_signup = noErrors_signup, isSubmitting_signup = False,
      passwordStrength = \<lparr>score = 4, feedback = []\<rparr>\<rparr>"

text \<open>The same form with a password that the strength meter scored too low.\<close>

definition weakSignup :: signup_page where
  "weakSignup =
     filledSignup\<lparr>passwordStrength := \<lparr>score = 2, feedback = ''Make it longer''\<rparr>\<rparr>"

section \<open>Properties of the rounding\<close>

subsection \<open>Powers of two and the exponent\<close>

lemma two_powi_mono: "a \<le> b \<Longrightarrow> (2::rat) powi a \<le> 2 powi b"
  by (rule power_int_increasing) simp_all

lemma two_powi_strict: "a < b \<Longrightarrow> (2::rat) powi a < 2 powi b"
  by (rule power_int_strict_increasing) simp_all

lemma two_powi_add: "(2::rat) powi (a + b) = 2 powi a * 2 powi b"
  by (rule power_int_add) simp

lemma two_powi_nonneg: "0 \<le> e \<Longrightarrow> (2::rat) powi e = of_int (2 ^ nat e)"
  by (simp add: power_int_def)

lemma two_powi_neg: "0 \<le> e \<Longrightarrow> (2::rat) powi (- e) = 1 / of_int (2 ^ nat e)"
  using two_powi_nonneg [of e] by (simp add: power_int_minus_divide)

lemma bitlen_pos: "0 < n \<Longrightarrow> 1 \<le> bitlen n"
  using bitlen_nonneg [of n] bitlen_eq_zero_iff [of n] by linarith

lemma ilog2_bounds_ge1:
  assumes "1 \<le> x"
  shows "2 powi (ilog2 x) \<le> x \<and> x < 2 powi (ilog2 x + 1)"
proof -
  define n where "n = \<lfloor>x\<rfloor>"
  define b where "b = bitlen n"
  have n: "0 < n"
    using assms by (simp add: n_def)
  have b: "1 \<le> b"
    unfolding b_def using n by (rule bitlen_pos)
  have lo: "2 ^ nat (b - 1) \<le> n" and hi: "n < 2 ^ nat b"
    using bitlen_bounds [OF n] by (simp_all add: b_def)
  have "(2::rat) powi (b - 1) = of_int (2 ^ nat (b - 1))"
    using b by (intro two_powi_nonneg) simp
  also have "\<dots> \<le> of_int n"
    using lo by (simp only: of_int_le_iff)
  also have "\<dots> \<le> x"
    by (simp add: n_def)
  finally have 1: "2 powi (b - 1) \<le> x" .
  have "n + 1 \<le> 2 ^ nat b"
    using hi by simp
  have "x < of_int (n + 1)"
    using floor_correct [of x] by (simp add: n_def)
  also have "\<dots> \<le> of_int (2 ^ nat b)"
    using \<open>n + 1 \<le> 2 ^ nat b\<close> by (simp only: of_int_le_iff)
  also have "\<dots> = (2::rat) powi b"
    using b by (intro two_powi_nonneg [symmetric]) simp
  finally have 2: "x < 2 powi b" .
  show ?thesis
    using assms 1 2 by (simp add: ilog2_def n_def b_def)
qed

lemma ilog2_bounds_lt1:
  assumes "0 < x" "x < 1"
  shows "2 powi (ilog2 x) \<le> x \<and> x < 2 powi (ilog2 x + 1)"
proof -
  define k where "k = \<lceil>1 / x\<rceil> - 1"
  define b where "b = bitlen k"
  have "1 < 1 / x"
    using assms by simp
  then have k: "0 < k"
    by (simp add: k_def less_ceiling_iff)
  have b: "1 \<le> b"
    unfolding b_def using k by (rule bitlen_pos)
  have lo: "2 ^ nat (b - 1) \<le> k" and hi: "k < 2 ^ nat b"
    using bitlen_bounds [OF k] by (simp_all add: b_def)
  have "k + 1 \<le> 2 ^ nat b"
    using hi by simp
  have "1 / x \<le> of_int (k + 1)"
    by (simp add: k_def)
  also have "\<dots> \<le> of_int (2 ^ nat b)"
    using \<open>k + 1 \<le> 2 ^ nat b\<close> by (simp only: of_int_le_iff)
  finally have "1 / x \<le> of_int (2 ^ nat b)" .
  then have "1 / of_int (2 ^ nat b) \<le> x"
    using assms(1) by (simp add: field_simps)
  then have 1: "2 powi (- b) \<le> x"
    using b by (simp add: two_powi_neg)
  have "of_int (2 ^ nat (b - 1)) \<le> (of_int k :: rat)"
    using lo by (simp only: of_int_le_iff)
  also have "of_int k < 1 / x"
    using ceiling_correct [of "1 / x"] by (simp add: k_def)
  finally have "of_int (2 ^ nat (b - 1)) < 1 / x" .
  then have "x < 1 / of_int (2 ^ nat (b - 1))"
    using assms(1) by (simp add: field_simps)
  moreover have "(2::rat) powi (- b + 1) = 1 / of_int (2 ^ nat (b - 1))"
    using two_powi_neg [of "b - 1"] b by simp
  ultimately have 2: "x < 2 powi (- b + 1)"
    by simp
  show ?thesis
    using assms 1 2 by (simp add: ilog2_def k_def b_def)
qed

lemma ilog2_bounds:
  assumes "0 < x"
  shows "2 powi (ilog2 x) \<le> x" and "x < 2 powi (ilog2 x + 1)"
  using assms ilog2_bounds_ge1 [of x] ilog2_bounds_lt1 [of x] by (cases "1 \<le> x"; simp)+

lemma ilog2_unique:
  assumes "0 < x" "2 powi l \<le> x" "x < 2 powi (l + 1)"
  shows "ilog2 x = l"
proof -
  have "2 powi (ilog2 x) < (2::rat) powi (l + 1)"
    using ilog2_bounds(1) [OF assms(1)] assms(3) by simp
  then have "ilog2 x < l + 1"
    using two_powi_mono [of "l + 1" "ilog2 x"] by linarith
  moreover have "2 powi l < (2::rat) powi (ilog2 x + 1)"
    using ilog2_bounds(2) [OF assms(1)] assms(2) by simp
  then have "l < ilog2 x + 1"
    using two_powi_mono [of "ilog2 x + 1" l] by linarith
  ultimately show ?thesis by simp
qed

lemma roundHalfEven_ge_floor: "\<lfloor>y\<rfloor> \<le> roundHalfEven y"
  by (simp add: roundHalfEven_def Let_def)

lemma roundHalfEven_le_ceiling: "roundHalfEven y \<le> \<lceil>y\<rceil>"
proof -
  have "\<lfloor>y\<rfloor> + 1 \<le> \<lceil>y\<rceil>" if "1 / 2 \<le> y - of_int \<lfloor>y\<rfloor>"
    using that by (simp add: le_ceiling_iff)
  then show ?thesis
    by (auto simp add: roundHalfEven_def Let_def)
qed

lemma roundHalfEven_of_int: "roundHalfEven (of_int k) = k"
  by (simp add: roundHalfEven_def)

lemma roundHalfEven_near:
  assumes "\<bar>y - of_int k\<bar> < 1 / 2"
  shows "roundHalfEven y = k"
proof (cases "of_int k \<le> y")
  case True
  then have "\<lfloor>y\<rfloor> = k"
    using assms by (intro floor_unique) simp_all
  then show ?thesis
    using assms True by (simp add: roundHalfEven_def)
next
  case False
  then have "\<lfloor>y\<rfloor> = k - 1"
    using assms by (intro floor_unique) simp_all
  then show ?thesis
    using assms False by (simp add: roundHalfEven_def)
qed

subsection \<open>Bounds that the rounding keeps\<close>

lemma roundPositive_eq:
  "roundPositive x =
     (if overflowThreshold \<le> of_int (roundHalfEven (x / 2 powi max (ilog2 x - 52) (- 1074)))
           * 2 powi max (ilog2 x - 52) (- 1074)
      then PosInfinity
      else Num (of_int (roundHalfEven (x / 2 powi max (ilog2 x - 52) (- 1074)))
           * 2 powi max (ilog2 x - 52) (- 1074)))"
  by (simp add: roundPositive_def Let_def)

lemma scaled_upper:
  assumes "0 < x" "ilog2 x - 52 \<le> e"
  shows "x / 2 powi e < 2 ^ 53"
proof -
  have "x < 2 powi (ilog2 x + 1)"
    using assms(1) by (rule ilog2_bounds)
  also have "\<dots> \<le> 2 powi (e + 53)"
    using assms(2) by (intro two_powi_mono) simp
  also have "\<dots> = 2 powi e * 2 ^ 53"
    by (simp add: two_powi_add)
  finally show ?thesis
    by (simp add: field_simps)
qed

lemma scaled_lower:
  assumes "0 < x" "e = ilog2 x - 52"
  shows "2 ^ 52 \<le> x / 2 powi e"
proof -
  have "2 powi e * 2 ^ 52 = (2::rat) powi (e + 52)"
    by (simp add: two_powi_add)
  also have "\<dots> = 2 powi (ilog2 x)"
    using assms(2) by simp
  also have "\<dots> \<le> x"
    using assms(1) by (rule ilog2_bounds)
  finally show ?thesis
    by (simp add: field_simps)
qed

lemma dyadic_scaled:
  assumes "e' \<le> e"
  shows "of_int m * 2 powi e / 2 powi e' = (of_int (m * 2 ^ nat (e - e')) :: rat)"
proof -
  have "(2::rat) powi e = 2 powi (e - e') * 2 powi e'"
    using two_powi_add [of "e - e'" e'] by simp
  moreover have "(2::rat) powi (e - e') = of_int (2 ^ nat (e - e'))"
    using assms by (intro two_powi_nonneg) simp
  ultimately show ?thesis
    by simp
qed

lemma dyadic_small:
  assumes "m \<le> 2 ^ 53" "e < e'"
  shows "of_int m * 2 powi e \<le> (2::rat) ^ 52 * 2 powi e'"
proof -
  have "of_int m * 2 powi e \<le> (2::rat) ^ 53 * 2 powi e"
  proof -
    have "(of_int m :: rat) \<le> of_int (2 ^ 53)"
      using assms(1) by (simp only: of_int_le_iff)
    then show ?thesis
      by (simp add: mult_right_mono)
  qed
  also have "\<dots> = 2 ^ 52 * 2 powi (e + 1)"
    by (simp add: two_powi_add)
  also have "\<dots> \<le> 2 ^ 52 * 2 powi e'"
    using assms(2) by (intro mult_left_mono two_powi_mono) simp_all
  finally show ?thesis .
qed

lemma roundPositive_ge:
  assumes "0 < x" "y \<le> x" "y = of_int m * 2 powi e" "m \<le> 2 ^ 53" "- 1074 \<le> e"
  shows "roundPositive x = PosInfinity \<or> (\<exists>r. roundPositive x = Num r \<and> y \<le> r)"
proof -
  define e' where "e' = max (ilog2 x - 52) (- 1074)"
  define k where "k = roundHalfEven (x / 2 powi e')"
  have pos: "0 < (2::rat) powi e'"
    by simp
  have "y \<le> of_int k * 2 powi e'"
  proof (cases "e' \<le> e")
    case True
    have "of_int (m * 2 ^ nat (e - e')) = y / 2 powi e'"
      using dyadic_scaled [OF True, of m] assms(3) by simp
    also have "\<dots> \<le> x / 2 powi e'"
      using assms(2) pos by (simp add: divide_right_mono)
    finally have "m * 2 ^ nat (e - e') \<le> \<lfloor>x / 2 powi e'\<rfloor>"
      by (simp only: le_floor_iff)
    then have "m * 2 ^ nat (e - e') \<le> k"
      using roundHalfEven_ge_floor [of "x / 2 powi e'"] unfolding k_def by linarith
    then have "(of_int (m * 2 ^ nat (e - e')) :: rat) \<le> of_int k"
      by (simp only: of_int_le_iff)
    then have "y / 2 powi e' \<le> of_int k"
      using dyadic_scaled [OF True, of m] assms(3) by simp
    then show ?thesis
      using pos by (simp add: field_simps)
  next
    case False
    then have e': "e' = ilog2 x - 52"
      using assms(5) by (simp add: e'_def max_def split: if_splits)
    have "of_int (2 ^ 52) \<le> x / 2 powi e'"
      using scaled_lower [OF assms(1) e'] by simp
    then have "2 ^ 52 \<le> \<lfloor>x / 2 powi e'\<rfloor>"
      by (simp only: le_floor_iff)
    then have "2 ^ 52 \<le> k"
      using roundHalfEven_ge_floor [of "x / 2 powi e'"] unfolding k_def by linarith
    then have "(of_int (2 ^ 52) :: rat) \<le> of_int k"
      by (simp only: of_int_le_iff)
    then have k: "(2::rat) ^ 52 \<le> of_int k"
      by simp
    have "y \<le> 2 ^ 52 * 2 powi e'"
      using dyadic_small [OF assms(4), of e e'] False assms(3) by simp
    also have "\<dots> \<le> of_int k * 2 powi e'"
      using k by (intro mult_right_mono) simp_all
    finally show ?thesis .
  qed
  then show ?thesis
    by (simp add: roundPositive_eq e'_def k_def)
qed

lemma roundPositive_le:
  assumes "0 < x" "x \<le> y" "y = of_int m * 2 powi e" "m \<le> 2 ^ 53" "- 1074 \<le> e"
    and "y < overflowThreshold"
  shows "\<exists>r. roundPositive x = Num r \<and> r \<le> y"
proof -
  define e' where "e' = max (ilog2 x - 52) (- 1074)"
  define k where "k = roundHalfEven (x / 2 powi e')"
  have pos: "0 < (2::rat) powi e'"
    by simp
  have "of_int k * 2 powi e' \<le> y"
  proof (cases "e' \<le> e")
    case True
    have "x / 2 powi e' \<le> y / 2 powi e'"
      using assms(2) pos by (simp add: divide_right_mono)
    also have "\<dots> = of_int (m * 2 ^ nat (e - e'))"
      using dyadic_scaled [OF True, of m] assms(3) by simp
    finally have "\<lceil>x / 2 powi e'\<rceil> \<le> m * 2 ^ nat (e - e')"
      by (simp only: ceiling_le_iff)
    then have "k \<le> m * 2 ^ nat (e - e')"
      using roundHalfEven_le_ceiling [of "x / 2 powi e'"] unfolding k_def by linarith
    then have "(of_int k :: rat) \<le> of_int (m * 2 ^ nat (e - e'))"
      by (simp only: of_int_le_iff)
    then have "of_int k \<le> y / 2 powi e'"
      using dyadic_scaled [OF True, of m] assms(3) by simp
    then show ?thesis
      using pos by (simp add: field_simps)
  next
    case False
    then have e': "e' = ilog2 x - 52"
      using assms(5) by (simp add: e'_def max_def split: if_splits)
    have lower: "2 ^ 52 \<le> x / 2 powi e'"
      using scaled_lower [OF assms(1) e'] .
    have "y \<le> 2 ^ 52 * 2 powi e'"
      using dyadic_small [OF assms(4), of e e'] False assms(3) by simp
    then have "x \<le> 2 ^ 52 * 2 powi e'"
      using assms(2) by simp
    then have "x / 2 powi e' \<le> 2 ^ 52"
      using pos by (simp add: field_simps)
    then have x: "x / 2 powi e' = of_int (2 ^ 52)"
      using lower by simp
    have "k = 2 ^ 52"
      unfolding k_def x by (rule roundHalfEven_of_int)
    then have "of_int k * 2 powi e' = x"
      using x pos by (simp add: field_simps)
    then show ?thesis
      using assms(2) by simp
  qed
  then show ?thesis
    using assms(6) by (simp add: roundPositive_eq e'_def k_def)
qed

lemma roundPositive_dyadic:
  assumes "0 < x" "roundPositive x = Num r"
  shows "\<exists>m e. r = of_int m * 2 powi e \<and> 0 \<le> m \<and> m \<le> 2 ^ 53 \<and> - 1074 \<le> e"
proof -
  define e' where "e' = max (ilog2 x - 52) (- 1074)"
  define k where "k = roundHalfEven (x / 2 powi e')"
  have r: "r = of_int k * 2 powi e'"
    using assms(2) by (simp add: roundPositive_eq e'_def k_def split: if_splits)
  have "0 \<le> x / 2 powi e'"
    using assms(1) by simp
  then have "0 \<le> \<lfloor>x / 2 powi e'\<rfloor>"
    by simp
  then have k0: "0 \<le> k"
    using roundHalfEven_ge_floor [of "x / 2 powi e'"] unfolding k_def by linarith
  have "x / 2 powi e' \<le> of_int (2 ^ 53)"
    using scaled_upper [OF assms(1), of e'] by (simp add: e'_def)
  then have "\<lceil>x / 2 powi e'\<rceil> \<le> 2 ^ 53"
    by (simp only: ceiling_le_iff)
  then have k1: "k \<le> 2 ^ 53"
    using roundHalfEven_le_ceiling [of "x / 2 powi e'"] unfolding k_def by linarith
  have "- 1074 \<le> e'"
    by (simp add: e'_def)
  then show ?thesis
    using r k0 k1 by blast
qed

lemma roundPositive_nonneg:
  assumes "0 < x" "roundPositive x = Num r"
  shows "0 \<le> r"
  using roundPositive_dyadic [OF assms] by auto

lemma round64_ge:
  assumes "0 \<le> x" "y \<le> x" "y = of_int m * 2 powi e" "m \<le> 2 ^ 53" "- 1074 \<le> e"
  shows "round64 x = PosInfinity \<or> (\<exists>r. round64 x = Num r \<and> y \<le> r \<and> 0 \<le> r)"
proof (cases "x = 0")
  case True
  then show ?thesis
    using assms(2) by (simp add: round64_def)
next
  case False
  then have x: "0 < x"
    using assms(1) by simp
  show ?thesis
    using roundPositive_ge [OF x assms(2-5)] roundPositive_nonneg [OF x] x
    by (auto simp add: round64_def)
qed

lemma round64_le:
  assumes "0 \<le> x" "x \<le> y" "y = of_int m * 2 powi e" "m \<le> 2 ^ 53" "- 1074 \<le> e"
    and "y < overflowThreshold"
  shows "\<exists>r. round64 x = Num r \<and> 0 \<le> r \<and> r \<le> y"
proof (cases "x = 0")
  case True
  then show ?thesis
    using assms(2) by (simp add: round64_def)
next
  case False
  then have x: "0 < x"
    using assms(1) by simp
  show ?thesis
    using roundPositive_le [OF x assms(2-6)] roundPositive_nonneg [OF x] x
    by (auto simp add: round64_def)
qed

lemma round64_nonneg:
  assumes "0 \<le> x"
  shows "round64 x = PosInfinity \<or> (\<exists>r. round64 x = Num r \<and> 0 \<le> r)"
  using round64_ge [OF assms, of 0 0 0] assms by auto

lemma round64_le_nat:
  assumes "0 \<le> x" "x \<le> of_nat n" "n \<le> 2 ^ 53"
  shows "\<exists>r. round64 x = Num r \<and> 0 \<le> r \<and> r \<le> of_nat n"
proof -
  have "int n \<le> 2 ^ 53"
    using assms(3) by (metis of_nat_le_iff of_nat_numeral of_nat_power)
  moreover have "(of_nat n :: rat) < overflowThreshold"
  proof -
    have "(of_nat n :: rat) \<le> 2 ^ 53"
      using assms(3) by (metis of_nat_le_iff of_nat_numeral of_nat_power)
    also have "\<dots> < 2 ^ 1024"
      by (rule power_strict_increasing) simp_all
    finally show ?thesis
      by (simp add: overflowThreshold_def)
  qed
  ultimately show ?thesis
    using round64_le [OF assms(1,2), of "int n" 0] by simp
qed

lemma round64_dyadic:
  assumes "round64 x = Num r" "0 \<le> r"
  shows "\<exists>m e. r = of_int m * 2 powi e \<and> m \<le> 2 ^ 53 \<and> - 1074 \<le> e"
proof -
  consider "x = 0" | "0 < x" | "x < 0" by linarith
  then show ?thesis
  proof cases
    case 1
    then have "r = of_int 0 * 2 powi 0"
      using assms(1) by (simp add: round64_def)
    then show ?thesis by (intro exI [of _ 0] conjI) simp_all
  next
    case 2
    then have "roundPositive x = Num r"
      using assms(1) by (simp add: round64_def)
    from roundPositive_dyadic [OF 2 this] show ?thesis by blast
  next
    case 3
    then have "js_negate (roundPositive (- x)) = Num r"
      using assms(1) by (simp add: round64_def)
    then have "roundPositive (- x) = Num (- r)"
      by (cases "roundPositive (- x)") simp_all
    then have "0 \<le> - r"
      using 3 by (intro roundPositive_nonneg [of "- x"]) simp_all
    then have "r = of_int 0 * 2 powi 0"
      using assms(2) by simp
    then show ?thesis by (intro exI [of _ 0] conjI) simp_all
  qed
qed

lemma roundPositive_finite: "roundPositive x = Num r \<Longrightarrow> r < overflowThreshold"
  by (simp add: roundPositive_eq split: if_splits)

lemma round64_overflow:
  assumes "overflowThreshold \<le> x"
  shows "round64 x = PosInfinity"
proof -
  have x: "0 < x"
    using assms by (simp add: overflowThreshold_def)
  have "overflowThreshold = of_int 1 * 2 powi 1024"
    by (simp add: overflowThreshold_def)
  from roundPositive_ge [OF x assms this] roundPositive_finite [of x]
  have "roundPositive x = PosInfinity"
    by fastforce
  then show ?thesis
    using x by (simp add: round64_def)
qed

lemma round64_value:
  assumes "0 < x" "2 powi l \<le> x" "x < 2 powi (l + 1)"
    and "\<bar>x / 2 powi max (l - 52) (- 1074) - of_int k\<bar> < 1 / 2"
    and "r = of_int k * 2 powi max (l - 52) (- 1074)" "r < overflowThreshold"
  shows "round64 x = Num r"
proof -
  have "ilog2 x = l"
    using assms(1-3) by (rule ilog2_unique)
  moreover have "roundHalfEven (x / 2 powi max (l - 52) (- 1074)) = k"
    using assms(4) by (rule roundHalfEven_near)
  ultimately show ?thesis
    using assms(1,5,6) by (simp add: round64_def roundPositive_eq)
qed

lemma roundHalfEven_tie:
  assumes "y = of_int f + 1 / 2"
  shows "roundHalfEven y = (if even f then f else f + 1)"
proof -
  have "\<lfloor>y\<rfloor> = f"
    using assms by (intro floor_unique) simp_all
  then show ?thesis
    using assms by (simp add: roundHalfEven_def)
qed

lemma round64_value_tie:
  assumes "0 < x" "2 powi l \<le> x" "x < 2 powi (l + 1)"
    and "x / 2 powi max (l - 52) (- 1074) = of_int f + 1 / 2"
    and "r = of_int (if even f then f else f + 1) * 2 powi max (l - 52) (- 1074)"
    and "r < overflowThreshold"
  shows "round64 x = Num r"
proof -
  have "ilog2 x = l"
    using assms(1-3) by (rule ilog2_unique)
  moreover have "roundHalfEven (x / 2 powi max (l - 52) (- 1074)) = (if even f then f else f + 1)"
    using assms(4) by (rule roundHalfEven_tie)
  ultimately show ?thesis
    using assms(1,5,6) by (simp add: round64_def roundPositive_eq)
qed

lemma round64_fixed:
  assumes "0 \<le> m" "m \<le> 2 ^ 53" "- 1074 \<le> e" "of_int m * 2 powi e < overflowThreshold"
  shows "round64 (of_int m * 2 powi e) = Num (of_int m * 2 powi e)"
proof -
  have nonneg: "0 \<le> (of_int m * 2 powi e :: rat)"
    using assms(1) by simp
  from round64_le [OF nonneg order_refl refl assms(2,3,4)]
  obtain r where r: "round64 (of_int m * 2 powi e) = Num r" "r \<le> of_int m * 2 powi e"
    by blast
  from round64_ge [OF nonneg order_refl refl assms(2,3)] r
  have "of_int m * 2 powi e \<le> r"
    by auto
  then show ?thesis
    using r by simp
qed

lemma round64_of_nat: 
  assumes "n \<le> 2 ^ 53"
  shows "round64 (of_nat n) = Num (of_nat n)"
proof -
  have n: "int n \<le> 2 ^ 53"
    using assms by (metis of_nat_le_iff of_nat_numeral of_nat_power)
  have "(of_nat n :: rat) \<le> 2 ^ 53"
    using assms by (metis of_nat_le_iff of_nat_numeral of_nat_power)
  also have "\<dots> < 2 ^ 1024"
    by (rule power_strict_increasing) simp_all
  finally have "of_int (int n) * 2 powi 0 < overflowThreshold"
    by (simp add: overflowThreshold_def)
  from round64_fixed [OF _ n _ this] show ?thesis
    by simp
qed

lemma round64_numeral:
  "numeral w \<le> (2::nat) ^ 53 \<Longrightarrow> round64 (numeral w) = Num (numeral w)"
  using round64_of_nat [of "numeral w"] by simp

section \<open>Properties of the price breakdown\<close>

lemma js_greater_zero: "js_greater a (Num 0) \<Longrightarrow> a \<noteq> Num 0"
  by (cases a) simp_all

lemma js_lessEq_not_greater: "js_lessEq a b \<Longrightarrow> \<not> js_greater a b"
  by (cases a; cases b) simp_all

lemma calculatePriceInfo_eq:
  fixes pg ord
  defines "sh \<equiv> (if paymentMethod ord = ''COD'' then Num 50 else Num 0)"
  defines "sub \<equiv> js_minus (totalAmount ord) sh"
  defines "tot \<equiv> foldl (\<lambda>sum item. js_plus sum (quantity item)) (Num 0) (items ord)"
  defines "dis \<equiv> js_times (extraCharge pg) tot"
  defines "orig \<equiv> js_plus sub dis"
  shows "calculatePriceInfo pg ord =
           Some \<lparr>originalPrice = orig, discount = dis,
                 discountPercentage =
                   (if js_greater orig (Num 0) then Math_round (js_times (js_quotient dis orig) (Num 100))
                    else Num 0),
                 subtotal = sub, shipping = sh, totalItems = tot\<rparr>"
proof (cases "js_greater orig (Num 0)")
  case True
  then have "orig \<noteq> Num 0"
    by (rule js_greater_zero)
  then show ?thesis
    using True unfolding calculatePriceInfo_def Let_def sh_def sub_def tot_def dis_def orig_def
    by (simp add: js_divide_def)
next
  case False
  then show ?thesis
    unfolding calculatePriceInfo_def Let_def sh_def sub_def tot_def dis_def orig_def
    by simp
qed

lemma foldl_quantity:
  "foldl (\<lambda>sum item. js_plus sum (quantity item)) a xs = foldl js_plus a (map quantity xs)"
  by (simp add: foldl_map)

lemma foldl_js_plus_exact:
  "\<forall>k\<le>length qs. binary64 (a + sum_list (take k qs)) \<Longrightarrow>
     foldl js_plus (Num a) (map Num qs) = Num (a + sum_list qs)"
proof (induction qs arbitrary: a)
  case Nil
  then show ?case by simp
next
  case (Cons q qs)
  have all: "binary64 (a + sum_list (take k (q # qs)))" if "k \<le> length (q # qs)" for k
    using Cons.prems that by blast
  have "binary64 (a + q)"
    using all [of "Suc 0"] by simp
  then have step: "js_plus (Num a) (Num q) = Num (a + q)"
    by (simp add: binary64_def)
  have "binary64 (a + q + sum_list (take k qs))" if "k \<le> length qs" for k
    using all [of "Suc k"] that by (simp add: add.assoc)
  then have "foldl js_plus (Num (a + q)) (map Num qs) = Num (a + q + sum_list qs)"
    by (intro Cons.IH) blast
  then show ?case
    using step by (simp add: add.assoc)
qed

lemma js_times_dyadic:
  assumes "js_times a b = Num d" "0 \<le> d"
  shows "\<exists>m e. d = of_int m * 2 powi e \<and> m \<le> 2 ^ 53 \<and> - 1074 \<le> e"
proof -
  obtain x y where "a = Num x" "b = Num y"
    using assms(1) by (cases a; cases b) (simp_all split: if_splits)
  then have "round64 (x * y) = Num d"
    using assms(1) by simp
  then show ?thesis
    using assms(2) by (rule round64_dyadic)
qed

lemma Math_round_percent:
  assumes "0 \<le> p" "p \<le> 100"
  shows "\<exists>p'. Math_round (Num p) = Num p' \<and> 0 \<le> p' \<and> p' \<le> 100"
proof -
  have "0 \<le> \<lfloor>p + 1 / 2\<rfloor>"
    using assms(1) by simp
  moreover have "\<lfloor>p + 1 / 2\<rfloor> \<le> 100"
    using assms(2) by (simp add: floor_le_iff)
  ultimately have "(0::rat) \<le> of_int \<lfloor>p + 1 / 2\<rfloor> \<and> (of_int \<lfloor>p + 1 / 2\<rfloor> :: rat) \<le> of_int 100"
    by simp
  then show ?thesis
    by simp
qed

lemma percentage_of_zero: "Math_round (js_times (Num 0) (Num 100)) = Num 0"
  by (simp add: round64_def floor_eq_iff)

lemma percentage_range:
  assumes "0 \<le> d" "d = of_int m * 2 powi e" "m \<le> 2 ^ 53" "- 1074 \<le> e"
    and "js_lessEq (Num 0) sub"
  shows "\<exists>p. (if js_greater (js_plus sub (Num d)) (Num 0)
              then Math_round (js_times (js_quotient (Num d) (js_plus sub (Num d))) (Num 100))
              else Num 0) = Num p \<and> 0 \<le> p \<and> p \<le> 100"
proof -
  consider "js_plus sub (Num d) = PosInfinity"
    | r where "js_plus sub (Num d) = Num r" "d \<le> r" "0 \<le> r"
  proof (cases sub)
    case (Num s)
    then have "0 \<le> s + d" "d \<le> s + d"
      using assms(1,5) by simp_all
    from round64_ge [OF this assms(2-4)] that Num show ?thesis
      by auto
  next
    case PosInfinity
    then show ?thesis using that by simp
  next
    case NegInfinity
    then show ?thesis using assms(5) by simp
  next
    case NaN
    then show ?thesis using assms(5) by simp
  qed
  then show ?thesis
  proof cases
    case 1
    then show ?thesis
      using percentage_of_zero by simp
  next
    case 2
    show ?thesis
    proof (cases "0 < r")
      case False
      then show ?thesis using 2 by simp
    next
      case True
      have "0 \<le> d / r" "d / r \<le> of_nat 1"
        using True assms(1) 2(2) by simp_all
      from round64_le_nat [OF this] obtain q
        where q: "round64 (d / r) = Num q" "0 \<le> q" "q \<le> 1"
        by auto
      have "0 \<le> q * 100" "q * 100 \<le> of_nat 100"
        using q(2,3) by simp_all
      from round64_le_nat [OF this] obtain p
        where p: "round64 (q * 100) = Num p" "0 \<le> p" "p \<le> 100"
        by auto
      from Math_round_percent [OF p(2,3)] show ?thesis
        using True 2(1) q(1) p(1) by simp
    qed
  qed
qed

subsection \<open>Sums, products and differences that are not negative\<close>

lemma js_plus_nonneg:
  assumes "js_lessEq (Num 0) a" "js_lessEq (Num 0) b"
  shows "js_lessEq (Num 0) (js_plus a b)"
proof (cases a)
  case a: (Num x)
  show ?thesis
  proof (cases b)
    case b: (Num y)
    have "0 \<le> x + y"
      using assms a b by simp
    from round64_nonneg [OF this] show ?thesis
      using a b by auto
  qed (use assms a in simp_all)
qed (use assms in \<open>cases b; simp\<close>)+

lemma foldl_js_plus_nonneg:
  "js_lessEq (Num 0) a \<Longrightarrow> \<forall>q\<in>set qs. js_lessEq (Num 0) q \<Longrightarrow>
     js_lessEq (Num 0) (foldl js_plus a qs)"
  by (induction qs arbitrary: a) (simp_all add: js_plus_nonneg)

lemma js_times_nonneg:
  assumes "js_lessEq (Num 0) a" "js_lessEq (Num 0) b" "js_times a b = Num d"
  shows "0 \<le> d"
proof -
  obtain x y where xy: "a = Num x" "b = Num y"
    using assms(3) by (cases a; cases b) (simp_all split: if_splits)
  then have "0 \<le> x * y"
    using assms(1,2) by simp
  from round64_nonneg [OF this] show ?thesis
    using xy assms(3) by auto
qed

lemma js_minus_nonneg:
  assumes "js_lessEq (Num s) a"
  shows "js_lessEq (Num 0) (js_minus a (Num s))"
proof (cases a)
  case (Num x)
  then have "0 \<le> x + - s"
    using assms by simp
  from round64_nonneg [OF this] show ?thesis
    using Num by (auto simp add: js_minus_def)
qed (use assms in \<open>simp_all add: js_minus_def\<close>)

subsection \<open>The rounding at some decimal and large values\<close>

text \<open>
  \<open>0.1 * 3\<close> is \<open>0.30000000000000004\<close>, \<open>2 ^ 53 + 1\<close> is \<open>2 ^ 53\<close>, and the
  percentage of 29 in 200 is 14: the hundredfold of the rounded quotient lies below 14.5.
\<close>

lemma literal_0_1: "round64 (1 / 10) = Num (3602879701896397 / 36028797018963968)"
  by (rule round64_value [where l = "- 4" and k = 7205759403792794])
     (simp_all add: overflowThreshold_def power_int_minus_divide)

lemma tenth_times_three:
  "js_times (Num (3602879701896397 / 36028797018963968)) (Num 3) =
     Num (1351079888211149 / 4503599627370496)"
  unfolding js_times.simps
  by (rule round64_value_tie [where l = "- 2" and f = 5404319552844595])
     (simp_all add: overflowThreshold_def power_int_minus_divide)

lemma above_two_to_53: "js_plus (Num (2 ^ 53)) (Num 1) = Num (2 ^ 53)"
  unfolding js_plus.simps
  by (rule round64_value_tie [where l = 53 and f = 4503599627370496])
     (simp_all add: overflowThreshold_def)

lemma tie_quotient:
  "round64 (29 / 200) = Num (5224175567749775 / 36028797018963968)"
  by (rule round64_value [where l = "- 3" and k = 5224175567749775])
     (simp_all add: overflowThreshold_def power_int_minus_divide)

lemma tie_hundredfold:
  "round64 (5224175567749775 / 36028797018963968 * 100) =
     Num (8162774324609023 / 562949953421312)"
  by (rule round64_value [where l = 3 and k = 8162774324609023])
     (simp_all add: overflowThreshold_def power_int_minus_divide)

lemma percentage_below_tie:
  "Math_round (js_times (js_quotient (Num 29) (Num 200)) (Num 100)) = Num 14"
  using tie_quotient tie_hundredfold by (simp add: floor_eq_iff)

subsection \<open>The example orders\<close>

lemma example_quotient:
  "round64 (9 / 49) = Num (6617534146340321 / 36028797018963968)"
  by (rule round64_value [where l = "- 3" and k = 6617534146340321])
     (simp_all add: overflowThreshold_def power_int_minus_divide)

lemma example_hundredfold:
  "round64 (6617534146340321 / 36028797018963968 * 100) = Num (646243568978547 / 35184372088832)"
  by (rule round64_value [where l = 4 and k = 5169948551828376])
     (simp_all add: overflowThreshold_def power_int_minus_divide)

lemma calculatePriceInfo_worked:
  assumes "totalAmount ord = Num 450" and "paymentMethod ord = ''COD''"
    and "map quantity (items ord) = [Num 2, Num 1]" and "extraCharge pg = Num 30"
  shows "calculatePriceInfo pg ord =
           Some \<lparr>originalPrice = Num 490, discount = Num 90, discountPercentage = Num 18,
                 subtotal = Num 400, shipping = Num 50, totalItems = Num 3\<rparr>"
  using assms example_quotient example_hundredfold
  by (simp add: calculatePriceInfo_eq foldl_quantity js_minus_def round64_numeral floor_eq_iff)

lemma literal_1049_97: "round64 (104997 / 100) = Num (4617816895263867 / 4398046511104)"
  by (rule round64_value [where l = 10 and k = 4617816895263867])
     (simp_all add: overflowThreshold_def power_int_minus_divide)

lemma literal_19_99: "round64 (1999 / 100) = Num (5626684784446013 / 281474976710656)"
  by (rule round64_value [where l = 4 and k = 5626684784446013])
     (simp_all add: overflowThreshold_def power_int_minus_divide)

lemma decimal_subtotal:
  "round64 (4617816895263867 / 4398046511104 - 50) = Num (4397914569708667 / 4398046511104)"
  by (rule round64_value [where l = 9 and k = 8795829139417334])
     (simp_all add: overflowThreshold_def power_int_minus_divide)

lemma decimal_discount:
  "round64 (5626684784446013 / 281474976710656 * 3) = Num (2110006794167255 / 35184372088832)"
  by (rule round64_value_tie [where l = 5 and f = 8440027176669019])
     (simp_all add: overflowThreshold_def power_int_minus_divide)

lemma decimal_originalPrice:
  "round64 (4397914569708667 / 4398046511104 + 2110006794167255 / 35184372088832) =
     Num (2330832709489787 / 2199023255552)"
  by (rule round64_value [where l = 10 and k = 4661665418979574])
     (simp_all add: overflowThreshold_def power_int_minus_divide)

lemma decimal_quotient:
  "round64 (2110006794167255 / 35184372088832 / (2330832709489787 / 2199023255552)) =
     Num (8153846282722679 / 144115188075855872)"
  by (rule round64_value [where l = "- 5" and k = 8153846282722679])
     (simp_all add: overflowThreshold_def power_int_minus_divide)

lemma decimal_hundredfold:
  "round64 (8153846282722679 / 144115188075855872 * 100) =
     Num (6370192408377093 / 1125899906842624)"
  by (rule round64_value [where l = 2 and k = 6370192408377093])
     (simp_all add: overflowThreshold_def power_int_minus_divide)

lemma calculatePriceInfo_decimal:
  "calculatePriceInfo decimalPage decimalOrder =
     Some \<lparr>originalPrice = Num (2330832709489787 / 2199023255552),
           discount = Num (2110006794167255 / 35184372088832),
           discountPercentage = Num 6,
           subtotal = Num (4397914569708667 / 4398046511104),
           shipping = Num 50, totalItems = Num 3\<rparr>"
  using decimal_subtotal decimal_discount decimal_originalPrice decimal_quotient
    decimal_hundredfold
  by (simp add: calculatePriceInfo_eq decimalPage_def decimalOrder_def literal_1049_97
      literal_19_99 js_minus_def round64_numeral floor_eq_iff)

lemma literal_1e308: "round64 (10 ^ 308) = Num (5010420900022432 * 2 ^ 971)"
  by (rule round64_value [where l = 1023 and k = 5010420900022432])
     (simp_all add: overflowThreshold_def)

lemma fixed_1e308:
  "round64 (5010420900022432 * 2 ^ 971) = Num (5010420900022432 * 2 ^ 971)"
  by (rule round64_value [where l = 1023 and k = 5010420900022432])
     (simp_all add: overflowThreshold_def)

lemma overflow_discount: "round64 (5010420900022432 * 2 ^ 971 * 2) = PosInfinity"
  by (rule round64_overflow) (simp add: overflowThreshold_def)

lemma calculatePriceInfo_overflow:
  "calculatePriceInfo overflowPage overflowOrder =
     Some \<lparr>originalPrice = PosInfinity, discount = PosInfinity, discountPercentage = NaN,
           subtotal = Num (5010420900022432 * 2 ^ 971), shipping = Num 0,
           totalItems = Num 2\<rparr>"
  using literal_1e308 fixed_1e308 overflow_discount
  by (simp add: calculatePriceInfo_eq overflowPage_def overflowOrder_def js_minus_def
      round64_numeral)

section \<open>The claims about the price breakdown\<close>

text \<open>
  C1, as amended. The breakdown has shipping 50 for COD and 0 otherwise, and the other
  fields are what the operators of the code give, each rounding its result to binary64:
  subtotal is the total amount minus the shipping, totalItems the quantities added from 0
  in the order of the items (0 for no items), discount the surcharge times totalItems,
  originalPrice the subtotal plus the discount. A field is the exact difference, sum or
  product whenever that value is a binary64 number (for totalItems, whenever every partial
  sum is).
\<close>

theorem calculatePriceInfo_fields:
  "\<exists>info. calculatePriceInfo pg ord = Some info
     \<and> shipping info = (if paymentMethod ord = ''COD'' then Num 50 else Num 0)
     \<and> subtotal info = js_minus (totalAmount ord) (shipping info)
     \<and> totalItems info = foldl js_plus (Num 0) (map quantity (items ord))
     \<and> (items ord = [] \<longrightarrow> totalItems info = Num 0)
     \<and> discount info = js_times (extraCharge pg) (totalItems info)
     \<and> originalPrice info = js_plus (subtotal info) (discount info)
     \<and> (\<forall>a s. totalAmount ord = Num a \<and> shipping info = Num s \<and> binary64 (a - s) \<longrightarrow>
           subtotal info = Num (a - s))
     \<and> (\<forall>qs. map quantity (items ord) = map Num qs \<and>
                (\<forall>k\<le>length qs. binary64 (sum_list (take k qs))) \<longrightarrow>
           totalItems info = Num (sum_list qs))
     \<and> (\<forall>c t. extraCharge pg = Num c \<and> totalItems info = Num t \<and> binary64 (c * t) \<longrightarrow>
           discount info = Num (c * t))
     \<and> (\<forall>s d. subtotal info = Num s \<and> discount info = Num d \<and> binary64 (s + d) \<longrightarrow>
           originalPrice info = Num (s + d))"
proof -
  obtain info where info: "calculatePriceInfo pg ord = Some info"
    by (simp add: calculatePriceInfo_eq)
  then have fields:
    "shipping info = (if paymentMethod ord = ''COD'' then Num 50 else Num 0)"
    "subtotal info = js_minus (totalAmount ord) (shipping info)"
    "totalItems info = foldl js_plus (Num 0) (map quantity (items ord))"
    "discount info = js_times (extraCharge pg) (totalItems info)"
    "originalPrice info = js_plus (subtotal info) (discount info)"
    by (auto simp add: calculatePriceInfo_eq foldl_quantity)
  have sub: "subtotal info = Num (a - s)"
    if "totalAmount ord = Num a \<and> shipping info = Num s \<and> binary64 (a - s)" for a s
    using that fields(2) by (simp add: js_minus_def binary64_def)
  have tot: "totalItems info = Num (sum_list qs)"
    if "map quantity (items ord) = map Num qs \<and>
        (\<forall>k\<le>length qs. binary64 (sum_list (take k qs)))" for qs
    using foldl_js_plus_exact [of qs 0] that fields(3) by simp
  have dis: "discount info = Num (c * t)"
    if "extraCharge pg = Num c \<and> totalItems info = Num t \<and> binary64 (c * t)" for c t
    using that fields(4) by (simp add: binary64_def)
  have orig: "originalPrice info = Num (s + d)"
    if "subtotal info = Num s \<and> discount info = Num d \<and> binary64 (s + d)" for s d
    using that fields(5) by (simp add: binary64_def)
  have empty: "items ord = [] \<longrightarrow> totalItems info = Num 0"
    using fields(3) by simp
  show ?thesis
  proof (intro exI [of _ info] conjI allI impI)
    show "calculatePriceInfo pg ord = Some info" by (rule info)
    show "shipping info = (if paymentMethod ord = ''COD'' then Num 50 else Num 0)"
      by (rule fields)
    show "subtotal info = js_minus (totalAmount ord) (shipping info)" by (rule fields)
    show "totalItems info = foldl js_plus (Num 0) (map quantity (items ord))" by (rule fields)
    show "totalItems info = Num 0" if "items ord = []" using that empty by simp
    show "discount info = js_times (extraCharge pg) (totalItems info)" by (rule fields)
    show "originalPrice info = js_plus (subtotal info) (discount info)" by (rule fields)
    show "subtotal info = Num (a - s)"
      if "totalAmount ord = Num a \<and> shipping info = Num s \<and> binary64 (a - s)" for a s
      using that by (rule sub)
    show "totalItems info = Num (sum_list qs)"
      if "map quantity (items ord) = map Num qs \<and>
          (\<forall>k\<le>length qs. binary64 (sum_list (take k qs)))" for qs
      using that by (rule tot)
    show "discount info = Num (c * t)"
      if "extraCharge pg = Num c \<and> totalItems info = Num t \<and> binary64 (c * t)" for c t
      using that by (rule dis)
    show "originalPrice info = Num (s + d)"
      if "subtotal info = Num s \<and> discount info = Num d \<and> binary64 (s + d)" for s d
      using that by (rule orig)
  qed
qed

theorem calculatePriceInfo_fields_witness:
  "\<exists>info. calculatePriceInfo examplePage exampleOrder = Some info
     \<and> shipping info = Num 50 \<and> subtotal info = Num (450 - 50)
     \<and> totalItems info = Num (2 + 1) \<and> discount info = Num (30 * 3)
     \<and> originalPrice info = Num (400 + 90)
     \<and> binary64 (450 - 50) \<and> binary64 0 \<and> binary64 2 \<and> binary64 (2 + 1)
     \<and> binary64 (30 * 3) \<and> binary64 (400 + 90)"
proof -
  have exact: "binary64 (450 - 50)" "binary64 0" "binary64 2" "binary64 (2 + 1)"
    "binary64 (30 * 3)" "binary64 (400 + 90)"
    by (simp_all add: binary64_def round64_numeral) (simp add: round64_def)
  show ?thesis
    using calculatePriceInfo_fields [of examplePage exampleOrder] exact
    by (auto simp add: calculatePriceInfo_worked examplePage_def exampleOrder_def)
qed

text \<open>
  C1, as stated, fails where a result is not a binary64 number. For a total amount of
  1049.97 paid COD, one item of quantity 3 and a surcharge of 19.99 (each the binary64
  number that the decimal denotes), the discount of the breakdown is not the surcharge
  times totalItems, and its originalPrice is not the subtotal plus the discount.
\<close>

theorem calculatePriceInfo_fields_counterexample:
  "calculatePriceInfo decimalPage decimalOrder =
     Some \<lparr>originalPrice = Num (2330832709489787 / 2199023255552),
           discount = Num (2110006794167255 / 35184372088832),
           discountPercentage = Num 6,
           subtotal = Num (4397914569708667 / 4398046511104),
           shipping = Num 50, totalItems = Num 3\<rparr>
   \<and> extraCharge decimalPage = Num (5626684784446013 / 281474976710656)
   \<and> Num (2110006794167255 / 35184372088832) \<noteq> Num (5626684784446013 / 281474976710656 * 3)
   \<and> Num (2330832709489787 / 2199023255552) \<noteq>
       Num (4397914569708667 / 4398046511104 + 2110006794167255 / 35184372088832)"
  by (intro conjI calculatePriceInfo_decimal) (simp_all add: decimalPage_def literal_19_99)

text \<open>
  C3. The breakdown never fails: the quotient is taken only under \<open>originalPrice > 0\<close>,
  where the divisor is not 0, and when originalPrice is at most 0 (or is not above 0, as
  NaN is not) the discountPercentage is 0.
\<close>

theorem calculatePriceInfo_total:
  "(\<exists>info. calculatePriceInfo pg ord = Some info) \<and>
   (\<forall>info. calculatePriceInfo pg ord = Some info \<longrightarrow>
      js_lessEq (originalPrice info) (Num 0) \<longrightarrow> discountPercentage info = Num 0) \<and>
   (\<forall>info. calculatePriceInfo pg ord = Some info \<longrightarrow>
      \<not> js_greater (originalPrice info) (Num 0) \<longrightarrow> discountPercentage info = Num 0)"
proof -
  have ex: "\<exists>info. calculatePriceInfo pg ord = Some info"
    by (simp add: calculatePriceInfo_eq)
  have zero: "discountPercentage info = Num 0"
    if "calculatePriceInfo pg ord = Some info" "\<not> js_greater (originalPrice info) (Num 0)"
    for info
  proof -
    have "discountPercentage info =
        (if js_greater (originalPrice info) (Num 0)
         then Math_round (js_times (js_quotient (discount info) (originalPrice info)) (Num 100))
         else Num 0)"
      using that(1) by (auto simp add: calculatePriceInfo_eq)
    then show ?thesis
      using that(2) by simp
  qed
  show ?thesis
    using ex zero js_lessEq_not_greater by blast
qed

theorem calculatePriceInfo_total_witness:
  "\<exists>info. calculatePriceInfo examplePage (exampleOrder\<lparr>totalAmount := Num 50, items := []\<rparr>)
       = Some info
     \<and> originalPrice info = Num 0 \<and> js_lessEq (originalPrice info) (Num 0)
     \<and> discountPercentage info = Num 0"
  using calculatePriceInfo_total
    [of examplePage "exampleOrder\<lparr>totalAmount := Num 50, items := []\<rparr>"]
  by (auto simp add: calculatePriceInfo_eq examplePage_def exampleOrder_def js_minus_def
      round64_def)

text \<open>
  C6. For a total amount of 450 paid COD, items of quantities 2 and 1 and a surcharge of 30,
  the breakdown is shipping 50, subtotal 400, totalItems 3, discount 90, originalPrice 490
  and discountPercentage 18, the rounding of 90 / 490 * 100.
\<close>

theorem calculatePriceInfo_worked_example:
  assumes "totalAmount ord = Num 450" and "paymentMethod ord = ''COD''"
    and "map quantity (items ord) = [Num 2, Num 1]" and "extraCharge pg = Num 30"
  shows "calculatePriceInfo pg ord =
           Some \<lparr>originalPrice = Num 490, discount = Num 90, discountPercentage = Num 18,
                 subtotal = Num 400, shipping = Num 50, totalItems = Num 3\<rparr>
         \<and> Math_round (js_times (js_quotient (Num 90) (Num 490)) (Num 100)) = Num 18"
  using calculatePriceInfo_worked [OF assms] example_quotient example_hundredfold
  by (simp add: floor_eq_iff)

theorem calculatePriceInfo_worked_example_witness:
  "totalAmount exampleOrder = Num 450 \<and> paymentMethod exampleOrder = ''COD''
   \<and> map quantity (items exampleOrder) = [Num 2, Num 1] \<and> extraCharge examplePage = Num 30
   \<and> calculatePriceInfo examplePage exampleOrder =
       Some \<lparr>originalPrice = Num 490, discount = Num 90, discountPercentage = Num 18,
             subtotal = Num 400, shipping = Num 50, totalItems = Num 3\<rparr>"
proof -
  have h: "totalAmount exampleOrder = Num 450" "paymentMethod exampleOrder = ''COD''"
    "map quantity (items exampleOrder) = [Num 2, Num 1]" "extraCharge examplePage = Num 30"
    by (simp_all add: exampleOrder_def examplePage_def)
  show ?thesis
    using h calculatePriceInfo_worked_example [OF h] by simp
qed

text \<open>
  C7, as amended. Whenever the discount of the breakdown is a finite number, and it and
  the subtotal are not negative (as they are when the surcharge and every quantity are
  not negative and the total amount covers the shipping), the discountPercentage is a
  number between 0 and 100.
\<close>

theorem discountPercentage_range:
  assumes "calculatePriceInfo pg ord = Some info"
    and "discount info = Num d"
    and "(0 \<le> d \<and> js_lessEq (Num 0) (subtotal info)) \<or>
         (js_lessEq (Num 0) (extraCharge pg) \<and>
          (\<forall>item\<in>set (items ord). js_lessEq (Num 0) (quantity item)) \<and>
          js_lessEq (shipping info) (totalAmount ord))"
  shows "\<exists>p. discountPercentage info = Num p \<and> 0 \<le> p \<and> p \<le> 100"
proof -
  have fields: "discount info = js_times (extraCharge pg) (totalItems info)"
    "originalPrice info = js_plus (subtotal info) (discount info)"
    "discountPercentage info =
       (if js_greater (originalPrice info) (Num 0)
        then Math_round (js_times (js_quotient (discount info) (originalPrice info)) (Num 100))
        else Num 0)"
    "totalItems info = foldl js_plus (Num 0) (map quantity (items ord))"
    "subtotal info = js_minus (totalAmount ord) (shipping info)"
    "shipping info = (if paymentMethod ord = ''COD'' then Num 50 else Num 0)"
    using assms(1) by (auto simp add: calculatePriceInfo_eq foldl_quantity)
  have nonneg: "0 \<le> d \<and> js_lessEq (Num 0) (subtotal info)"
    using assms(3)
  proof
    assume "0 \<le> d \<and> js_lessEq (Num 0) (subtotal info)"
    then show ?thesis .
  next
    assume input: "js_lessEq (Num 0) (extraCharge pg) \<and>
      (\<forall>item\<in>set (items ord). js_lessEq (Num 0) (quantity item)) \<and>
      js_lessEq (shipping info) (totalAmount ord)"
    then have "js_lessEq (Num 0) (totalItems info)"
      unfolding fields(4) by (intro foldl_js_plus_nonneg) simp_all
    then have "0 \<le> d"
      using input fields(1) assms(2) js_times_nonneg by metis
    moreover have "js_lessEq (Num 0) (subtotal info)"
      using input js_minus_nonneg [of _ "totalAmount ord"] fields(5,6)
      by (simp split: if_splits)
    ultimately show ?thesis ..
  qed
  obtain m e where "d = of_int m * 2 powi e" "m \<le> 2 ^ 53" "- 1074 \<le> e"
    using js_times_dyadic [of "extraCharge pg" "totalItems info" d] fields(1) assms(2) nonneg
    by auto
  note range = percentage_range [OF conjunct1 [OF nonneg] this conjunct2 [OF nonneg]]
  have "discountPercentage info =
          (if js_greater (js_plus (subtotal info) (Num d)) (Num 0)
           then Math_round
                  (js_times (js_quotient (Num d) (js_plus (subtotal info) (Num d))) (Num 100))
           else Num 0)"
    unfolding fields(3) fields(2) assms(2) ..
  then show ?thesis
    using range by simp
qed

theorem discountPercentage_range_witness:
  "calculatePriceInfo decimalPage decimalOrder =
     Some \<lparr>originalPrice = Num (2330832709489787 / 2199023255552),
           discount = Num (2110006794167255 / 35184372088832),
           discountPercentage = Num 6,
           subtotal = Num (4397914569708667 / 4398046511104),
           shipping = Num 50, totalItems = Num 3\<rparr>
   \<and> (0::rat) \<le> 2110006794167255 / 35184372088832
   \<and> js_lessEq (Num 0) (Num (4397914569708667 / 4398046511104))
   \<and> (\<exists>p. Num 6 = Num p \<and> 0 \<le> p \<and> p \<le> 100)"
proof -
  let ?info = "\<lparr>originalPrice = Num (2330832709489787 / 2199023255552),
           discount = Num (2110006794167255 / 35184372088832),
           discountPercentage = Num 6,
           subtotal = Num (4397914569708667 / 4398046511104),
           shipping = Num 50, totalItems = Num 3\<rparr>"
  have h1: "calculatePriceInfo decimalPage decimalOrder = Some ?info"
    by (rule calculatePriceInfo_decimal)
  have h2: "discount ?info = Num (2110006794167255 / 35184372088832)"
    by simp
  have h3: "(0 \<le> (2110006794167255 / 35184372088832 :: rat) \<and>
             js_lessEq (Num 0) (subtotal ?info)) \<or>
         (js_lessEq (Num 0) (extraCharge decimalPage) \<and>
          (\<forall>item\<in>set (items decimalOrder). js_lessEq (Num 0) (quantity item)) \<and>
          js_lessEq (shipping ?info) (totalAmount decimalOrder))"
    by simp
  show ?thesis
    using h1 discountPercentage_range [OF h1 h2 h3] by simp
qed

text \<open>
  C7, as stated, fails where the discount overflows. For a total amount of 1e308 paid
  online, one item of quantity 2 and a surcharge of 1e308, the surcharge, the quantity, the
  discount and the subtotal are not negative, the discount and the originalPrice are
  Infinity, and the discountPercentage is NaN, which is neither at least 0 nor at most 100.
\<close>

theorem discountPercentage_range_counterexample:
  "calculatePriceInfo overflowPage overflowOrder =
     Some \<lparr>originalPrice = PosInfinity, discount = PosInfinity, discountPercentage = NaN,
           subtotal = Num (5010420900022432 * 2 ^ 971), shipping = Num 0,
           totalItems = Num 2\<rparr>
   \<and> js_lessEq (Num 0) (extraCharge overflowPage)
   \<and> map quantity (items overflowOrder) = [Num 2] \<and> js_lessEq (Num 0) (Num 2)
   \<and> js_lessEq (Num 0) (totalAmount overflowOrder)
   \<and> js_lessEq (Num 0) PosInfinity
   \<and> js_lessEq (Num 0) (Num (5010420900022432 * 2 ^ 971))
   \<and> \<not> js_lessEq (Num 0) NaN \<and> \<not> js_lessEq NaN (Num 100)"
proof (intro conjI)
  show "calculatePriceInfo overflowPage overflowOrder =
     Some \<lparr>originalPrice = PosInfinity, discount = PosInfinity, discountPercentage = NaN,
           subtotal = Num (5010420900022432 * 2 ^ 971), shipping = Num 0,
           totalItems = Num 2\<rparr>"
    by (rule calculatePriceInfo_overflow)
qed (use literal_1e308 in \<open>simp_all add: overflowPage_def overflowOrder_def\<close>)

section \<open>Properties of the login page\<close>

subsection \<open>Renders\<close>

lemma second_render_stable:
  "\<not> unchanged (runEffects prev r) r \<Longrightarrow>
     unchanged (runEffects r (runEffects prev r)) (runEffects prev r)"
  by (auto simp add: runEffects_def rateLimitEffect_def countdownEffect_def unchanged_def
      Let_def split: if_splits)

lemma render_eq:
  "render prev r = (if unchanged (runEffects prev r) r then r else runEffects prev r)"
proof (cases "unchanged (runEffects prev r) r")
  case True
  then show ?thesis by (simp add: render.simps [of prev r])
next
  case False
  then have "render prev r = render r (runEffects prev r)"
    by (simp add: render.simps [of prev r])
  also have "\<dots> = runEffects prev r"
    using second_render_stable [OF False] by (simp add: render.simps [of r "runEffects prev r"])
  finally show ?thesis using False by simp
qed

lemma mounted_eq: "mounted = initialLogin"
  by (simp add: mounted_def initialLogin_def countdownEffect_def rateLimitEffect_def
      unchanged_def Let_def)

lemma render_attempts:
  assumes "isBlocked r = isBlocked prev" "blockTimer r = blockTimer prev"
  shows "render prev r =
           (if loginAttempts r \<noteq> loginAttempts prev \<and> loginAttempts r \<ge> 5
            then r\<lparr>isBlocked := True, blockTimer := 300\<rparr> else r)"
  using assms
  by (auto simp add: render_eq runEffects_def rateLimitEffect_def unchanged_def Let_def)

lemma render_tick:
  assumes "isBlocked s" "blockTimer s > 0"
  shows "render s (s\<lparr>blockTimer := blockTimer s - 1\<rparr>) =
           (if blockTimer s = 1 then s\<lparr>loginAttempts := 0, isBlocked := False, blockTimer := 0\<rparr>
            else s\<lparr>blockTimer := blockTimer s - 1\<rparr>)"
  using assms
  by (auto simp add: render_eq runEffects_def countdownEffect_def unchanged_def Let_def)

subsection \<open>The handlers on the three guard variables\<close>

lemma validateForm_login_formData:
  "formData s = formData t \<Longrightarrow> fst (validateForm_login s) = fst (validateForm_login t)"
  by (simp add: validateForm_login_def Let_def)

lemma loginRejected_guard:
  shows "formData (fst (loginRejected onLine m s2)) = formData s2"
    and "loginAttempts (fst (loginRejected onLine m s2)) = loginAttempts s2 + 1"
    and "isBlocked (fst (loginRejected onLine m s2)) \<longleftrightarrow> isBlocked s2 \<or> 4 \<le> loginAttempts s2"
    and "blockTimer (fst (loginRejected onLine m s2)) =
           (if 4 \<le> loginAttempts s2 then 300 else blockTimer s2)"
  by (auto simp add: loginRejected_def Let_def render_attempts split: option.splits)

lemma beginSubmit_blocked:
  "isBlocked s \<Longrightarrow> beginSubmit s = \<lparr>page = s, calls = [], uncaught = False\<rparr>"
  by (simp add: beginSubmit_def)

lemma beginSubmit_valid:
  assumes "\<not> isBlocked s" "fst (validateForm_login s)"
  shows "beginSubmit s =
           \<lparr>page = s\<lparr>isSubmitting := True, errors := noErrors\<rparr>,
            calls = [[email (formData s), password (formData s)]], uncaught = False\<rparr>"
  using assms
  by (auto simp add: beginSubmit_def validateForm_login_def Let_def split: prod.splits)

lemma beginSubmit_invalid:
  assumes "\<not> isBlocked s" "\<not> fst (validateForm_login s)"
  shows "beginSubmit s = \<lparr>page = snd (validateForm_login s), calls = [], uncaught = False\<rparr>"
  using assms by (auto simp add: beginSubmit_def split: prod.splits)

lemma beginSubmit_calls:
  "calls (beginSubmit s) =
     (if \<not> isBlocked s \<and> fst (validateForm_login s)
      then [[email (formData s), password (formData s)]] else [])"
  by (cases "isBlocked s"; cases "fst (validateForm_login s)")
     (simp_all add: beginSubmit_blocked beginSubmit_valid beginSubmit_invalid)

lemma beginSubmit_uncaught: "\<not> uncaught (beginSubmit s)"
  by (cases "isBlocked s"; cases "fst (validateForm_login s)")
     (simp_all add: beginSubmit_blocked beginSubmit_valid beginSubmit_invalid)

lemma loginResolved_guard:
  shows "formData (loginResolved s2) = formData s2"
    and "loginAttempts (loginResolved s2) = 0"
    and "isBlocked (loginResolved s2) = isBlocked s2"
    and "blockTimer (loginResolved s2) = blockTimer s2"
  by (auto simp add: loginResolved_def render_attempts)

lemma handleSubmit_login_valid:
  assumes "\<not> isBlocked s" "fst (validateForm_login s)"
  shows "page (handleSubmit_login onLine outcome s) =
           (case outcome of
              Resolved \<Rightarrow> loginResolved (s\<lparr>isSubmitting := True, errors := noErrors\<rparr>)
            | Rejected m \<Rightarrow>
                fst (loginRejected onLine m (s\<lparr>isSubmitting := True, errors := noErrors\<rparr>)))"
  using assms
  by (simp add: handleSubmit_login_def beginSubmit_valid Let_def
      split: login_outcome.splits prod.splits)

lemma handleSubmit_login_invalid:
  assumes "\<not> isBlocked s" "\<not> fst (validateForm_login s)"
  shows "page (handleSubmit_login onLine outcome s) = snd (validateForm_login s)"
    and "calls (handleSubmit_login onLine outcome s) = []"
  using assms
  by (simp_all add: handleSubmit_login_def beginSubmit_invalid)

lemma handleSubmit_login_blocked:
  "isBlocked s \<Longrightarrow> handleSubmit_login onLine outcome s = \<lparr>page = s, calls = [], uncaught = False\<rparr>"
  by (simp add: handleSubmit_login_def beginSubmit_blocked)

lemma handleChange_login_guard:
  "loginAttempts (handleChange_login name val s) = loginAttempts s"
  "isBlocked (handleChange_login name val s) = isBlocked s"
  "blockTimer (handleChange_login name val s) = blockTimer s"
  by (simp_all add: handleChange_login_def Let_def)

lemma validateForm_login_guard:
  "formData (snd (validateForm_login s)) = formData s"
  "loginAttempts (snd (validateForm_login s)) = loginAttempts s"
  "isBlocked (snd (validateForm_login s)) = isBlocked s"
  "blockTimer (snd (validateForm_login s)) = blockTimer s"
  by (simp_all add: validateForm_login_def Let_def)

lemma settled_submit:
  assumes "settled s"
  shows "settled (page (handleSubmit_login onLine outcome s))"
proof (cases "isBlocked s")
  case True
  then show ?thesis using assms by (simp add: handleSubmit_login_blocked)
next
  case False
  show ?thesis
  proof (cases "fst (validateForm_login s)")
    case valid: True
    show ?thesis
    proof (cases outcome)
      case Resolved
      then show ?thesis
        using assms False valid
        by (simp add: handleSubmit_login_valid settled_def loginResolved_guard)
    next
      case (Rejected m)
      then show ?thesis
        using assms False valid
        by (simp add: handleSubmit_login_valid settled_def loginRejected_guard)
    qed
  next
    case invalid: False
    then show ?thesis
      using assms False
      by (simp add: handleSubmit_login_invalid settled_def validateForm_login_guard)
  qed
qed

subsection \<open>Countdown and invariant\<close>

lemma tick_eq:
  "tick s =
     (if isBlocked s \<and> 0 < blockTimer s
      then if blockTimer s = 1
           then s\<lparr>loginAttempts := 0, isBlocked := False, blockTimer := 0\<rparr>
           else s\<lparr>blockTimer := blockTimer s - 1\<rparr>
      else s)"
  by (simp add: tick_def render_tick)

lemma settled_tick: "settled s \<Longrightarrow> settled (tick s)"
  by (auto simp add: tick_eq settled_def)

lemma beginSubmit_guard:
  "formData (page (beginSubmit s)) = formData s"
  "loginAttempts (page (beginSubmit s)) = loginAttempts s"
  "isBlocked (page (beginSubmit s)) = isBlocked s"
  "blockTimer (page (beginSubmit s)) = blockTimer s"
  by (cases "isBlocked s"; cases "fst (validateForm_login s)";
      simp add: beginSubmit_blocked beginSubmit_valid beginSubmit_invalid
        validateForm_login_guard)+

lemma coherent_tick: "coherent s \<Longrightarrow> coherent (tick s)"
  by (auto simp add: tick_eq coherent_def)

lemma reachable_coherent: "reachable s n \<Longrightarrow> coherent s"
proof (induction rule: reachable.induct)
  case reachable_mounted
  show ?case by (simp add: mounted_eq initialLogin_def coherent_def)
next
  case (reachable_change s n name val)
  then show ?case by (simp add: coherent_def handleChange_login_guard)
next
  case (reachable_submit s n)
  then show ?case by (simp add: coherent_def beginSubmit_guard)
next
  case (reachable_resolved s n)
  then show ?case by (simp add: coherent_def loginResolved_guard)
next
  case (reachable_rejected s n onLine message)
  then show ?case by (auto simp add: coherent_def loginRejected_guard)
next
  case (reachable_tick s n)
  then show ?case by (simp add: coherent_tick)
qed

lemma byControls_reachable: "reachableByControls s n \<Longrightarrow> reachable s n"
  by (induction rule: reachableByControls.induct) (auto intro: reachable.intros)

lemma beginSubmit_submitting:
  "calls (beginSubmit s) \<noteq> [] \<Longrightarrow> isSubmitting (page (beginSubmit s))"
  by (cases "isBlocked s"; cases "fst (validateForm_login s)")
     (simp_all add: beginSubmit_blocked beginSubmit_valid beginSubmit_invalid)

lemma answered_submitting:
  "\<not> isSubmitting (loginResolved s)" "\<not> isSubmitting (fst (loginRejected onLine m s))"
  by (auto simp add: loginResolved_def loginRejected_def Let_def render_attempts
      split: option.splits)

lemma byControls_settled:
  "reachableByControls s n \<Longrightarrow>
     settled s \<and> (n = 0 \<or> n = 1 \<and> isSubmitting s \<and> \<not> isBlocked s)"
proof (induction rule: reachableByControls.induct)
  case byControls_mounted
  show ?case by (simp add: mounted_eq initialLogin_def settled_def)
next
  case (byControls_change s n name val)
  then show ?case
    by (simp add: settled_def handleChange_login_guard controlsDisabled_def)
next
  case (byControls_submit s n)
  then have "n = 0"
    by (auto simp add: controlsDisabled_def)
  moreover have "settled (page (beginSubmit s))"
    using byControls_submit.IH by (simp add: settled_def beginSubmit_guard)
  moreover have "length (calls (beginSubmit s)) \<le> 1"
    by (simp add: beginSubmit_calls)
  ultimately show ?case
    using byControls_submit.hyps(2) beginSubmit_submitting [of s]
    by (cases "calls (beginSubmit s)") (simp_all add: beginSubmit_guard controlsDisabled_def)
next
  case (byControls_resolved s n)
  then show ?case by (simp add: settled_def loginResolved_guard)
next
  case (byControls_rejected s n onLine message)
  then show ?case by (auto simp add: settled_def loginRejected_guard)
next
  case (byControls_tick s n)
  then have "settled (tick s)"
    by (simp add: settled_tick)
  moreover have "\<not> isBlocked s \<longrightarrow> tick s = s"
    by (simp add: tick_eq)
  ultimately show ?case
    using byControls_tick.IH by auto
qed

lemma byControls_handleSubmit:
  assumes "reachableByControls s 0" "\<not> controlsDisabled s"
  shows "reachableByControls (page (handleSubmit_login onLine outcome s)) 0"
proof (cases "calls (beginSubmit s) = []")
  case True
  then show ?thesis
    using byControls_submit [OF assms] by (simp add: handleSubmit_login_def Let_def)
next
  case False
  then have begun: "reachableByControls (page (beginSubmit s)) (Suc 0)"
    using byControls_submit [OF assms] by (simp add: beginSubmit_calls split: if_splits)
  show ?thesis
  proof (cases outcome)
    case Resolved
    then show ?thesis
      using False byControls_resolved [OF begun]
      by (simp add: handleSubmit_login_def Let_def)
  next
    case (Rejected message)
    then show ?thesis
      using False byControls_rejected [OF begun, of onLine message]
      by (auto simp add: handleSubmit_login_def Let_def split: prod.splits)
  qed
qed

lemma handleSubmit_login_submitting:
  "\<not> isSubmitting s \<Longrightarrow> \<not> isSubmitting (page (handleSubmit_login onLine outcome s))"
  by (cases "isBlocked s"; cases "fst (validateForm_login s)"; cases outcome)
     (simp_all add: handleSubmit_login_blocked handleSubmit_login_valid
        handleSubmit_login_invalid answered_submitting validateForm_login_def Let_def)

lemma reachable_handleSubmit:
  assumes "reachable s n"
  shows "reachable (page (handleSubmit_login onLine outcome s)) n"
proof (cases "calls (beginSubmit s) = []")
  case True
  then show ?thesis
    using reachable_submit [OF assms] by (simp add: handleSubmit_login_def Let_def)
next
  case False
  then have begun: "reachable (page (beginSubmit s)) (Suc n)"
    using reachable_submit [OF assms] by (simp add: beginSubmit_calls split: if_splits)
  show ?thesis
  proof (cases outcome)
    case Resolved
    then show ?thesis
      using False reachable_resolved [OF begun] by (simp add: handleSubmit_login_def Let_def)
  next
    case (Rejected message)
    then show ?thesis
      using False reachable_rejected [OF begun, of onLine message]
      by (auto simp add: handleSubmit_login_def Let_def split: prod.splits)
  qed
qed

lemma tick_countdown:
  "isBlocked s \<Longrightarrow> blockTimer s = int (Suc n) \<Longrightarrow>
     (tick ^^ Suc n) s = s\<lparr>loginAttempts := 0, isBlocked := False, blockTimer := 0\<rparr>"
proof (induction n arbitrary: s)
  case 0
  then show ?case by (simp add: tick_eq)
next
  case (Suc n)
  have step: "tick s = s\<lparr>blockTimer := int (Suc n)\<rparr>"
    using Suc.prems by (simp add: tick_eq)
  have "(tick ^^ Suc (Suc n)) s = (tick ^^ Suc n) (tick s)"
    by (simp only: funpow_Suc_right o_apply)
  also have "\<dots> = (tick s)\<lparr>loginAttempts := 0, isBlocked := False, blockTimer := 0\<rparr>"
    using Suc.prems by (intro Suc.IH) (simp_all add: step)
  finally show ?case by (simp add: step)
qed

lemma submitEach_append: "submitEach (xs @ ys) s = submitEach ys (submitEach xs s)"
  by (induction xs s rule: submitEach.induct) simp_all

lemma submitEach_rejections:
  assumes "\<not> isBlocked s" "fst (validateForm_login s)" "\<forall>r\<in>set rs. snd r \<noteq> Resolved"
    and "loginAttempts s + int (length rs) \<le> 4"
  shows "formData (submitEach rs s) = formData s \<and>
         loginAttempts (submitEach rs s) = loginAttempts s + int (length rs) \<and>
         \<not> isBlocked (submitEach rs s) \<and> blockTimer (submitEach rs s) = blockTimer s"
  using assms
proof (induction rs arbitrary: s)
  case Nil
  then show ?case by simp
next
  case (Cons r rs)
  obtain onLine outcome where r: "r = (onLine, outcome)" by (cases r)
  obtain m where m: "outcome = Rejected m"
    using Cons.prems(3) r by (cases outcome) auto
  let ?s = "page (handleSubmit_login onLine outcome s)"
  have s': "formData ?s = formData s" "loginAttempts ?s = loginAttempts s + 1"
    "\<not> isBlocked ?s" "blockTimer ?s = blockTimer s"
    using Cons.prems(1,2,4) m by (simp_all add: handleSubmit_login_valid loginRejected_guard)
  have valid: "fst (validateForm_login ?s)"
    using Cons.prems(2) validateForm_login_formData [OF s'(1)] by simp
  have "formData (submitEach rs ?s) = formData ?s \<and>
        loginAttempts (submitEach rs ?s) = loginAttempts ?s + int (length rs) \<and>
        \<not> isBlocked (submitEach rs ?s) \<and> blockTimer (submitEach rs ?s) = blockTimer ?s"
    using Cons.prems(3,4) s'(2) by (intro Cons.IH s'(3) valid) simp_all
  then show ?case
    using s' r by simp
qed

lemma byControls_submitEach:
  assumes "reachableByControls s 0" "\<not> isSubmitting s" "\<not> isBlocked s"
    and "fst (validateForm_login s)" "\<forall>r\<in>set rs. snd r \<noteq> Resolved"
    and "loginAttempts s + int (length rs) \<le> 5"
  shows "reachableByControls (submitEach rs s) 0"
  using assms
proof (induction rs arbitrary: s)
  case Nil
  then show ?case by simp
next
  case (Cons r rs)
  obtain onLine outcome where r: "r = (onLine, outcome)" by (cases r)
  obtain m where m: "outcome = Rejected m"
    using Cons.prems(5) r by (cases outcome) auto
  let ?s = "page (handleSubmit_login onLine outcome s)"
  have step: "reachableByControls ?s 0"
    using Cons.prems(1,2,3) by (intro byControls_handleSubmit) (simp_all add: controlsDisabled_def)
  show ?case
  proof (cases rs)
    case Nil
    then show ?thesis using step r by simp
  next
    case (Cons r' rs')
    then have few: "loginAttempts s \<le> 3"
      using Cons.prems(6) by simp
    have s': "formData ?s = formData s" "loginAttempts ?s = loginAttempts s + 1"
      "\<not> isBlocked ?s"
      using Cons.prems(3,4) few m by (simp_all add: handleSubmit_login_valid loginRejected_guard)
    have "fst (validateForm_login ?s)"
      using Cons.prems(4) validateForm_login_formData [OF s'(1)] by simp
    moreover have "\<not> isSubmitting ?s"
      using Cons.prems(2) by (rule handleSubmit_login_submitting)
    ultimately have "reachableByControls (submitEach rs ?s) 0"
      using Cons.prems(5,6) s'(2,3) step by (intro Cons.IH) simp_all
    then show ?thesis
      using r by simp
  qed
qed

subsection \<open>Validation\<close>

lemma trim_eq_Nil: "trim s = [] \<longleftrightarrow> (\<forall>c\<in>set s. whitespace c)"
proof
  assume "trim s = []"
  then have "\<forall>c\<in>set (dropWhile whitespace s). whitespace c"
    by (simp add: trim_def dropWhile_eq_Nil_conv)
  then have "dropWhile whitespace s = []"
    using hd_dropWhile [of whitespace s] hd_in_set [of "dropWhile whitespace s"] by blast
  then show "\<forall>c\<in>set s. whitespace c"
    by (simp add: dropWhile_eq_Nil_conv)
next
  assume "\<forall>c\<in>set s. whitespace c"
  then show "trim s = []"
    by (auto simp add: trim_def dest: set_dropWhileD)
qed

lemma test_emailRegex_trim: "test emailRegex s \<Longrightarrow> s \<noteq> [] \<and> trim s \<noteq> []"
  by (cases s) (auto simp add: emailRegex_def trim_eq_Nil)

lemma validateForm_login_iff:
  "fst (validateForm_login s) \<longleftrightarrow>
     email (formData s) \<noteq> [] \<and> test emailRegex (email (formData s)) \<and>
     password (formData s) \<noteq> [] \<and> 6 \<le> length (password (formData s))"
  using test_emailRegex_trim [of "email (formData s)"]
  by (auto simp add: validateForm_login_def Let_def noErrors_def)

lemma handleSubmit_login_calls:
  "calls (handleSubmit_login onLine outcome s) =
     (if \<not> isBlocked s \<and> fst (validateForm_login s)
      then [[email (formData s), password (formData s)]] else [])"
  by (simp add: handleSubmit_login_def beginSubmit_calls Let_def
      split: prod.splits login_outcome.splits)

lemma handleSubmit_signup_calls:
  "calls (handleSubmit_signup outcome s) =
     (if fst (validateForm_signup s) \<and> \<not> isSubmitting_signup s
      then [[firstName (formData_signup s), lastName (formData_signup s),
             email_signup (formData_signup s), password_signup (formData_signup s),
             phone (formData_signup s)]]
      else [])"
  by (auto simp add: handleSubmit_signup_def Let_def
      split: prod.splits signup_outcome.splits)

lemma filledLogin_valid: "fst (validateForm_login filledLogin)"
  by (simp add: validateForm_login_iff filledLogin_def handleChange_login_def mounted_eq
      initialLogin_def noErrors_def emailRegex_def whitespace_def)

lemma filledSignup_valid: "fst (validateForm_signup filledSignup)"
  by (simp add: validateForm_signup_def filledSignup_def noErrors_signup_def Let_def
      trim_def emailRegex_def phoneRegex_def whitespace_def digit_def)

lemma mounted_invalid: "\<not> fst (validateForm_login mounted)"
  by (simp add: validateForm_login_iff mounted_eq initialLogin_def)

lemma weakSignup_invalid: "\<not> fst (validateForm_signup weakSignup)"
  by (simp add: validateForm_signup_def weakSignup_def filledSignup_def noErrors_signup_def
      Let_def trim_def emailRegex_def phoneRegex_def whitespace_def digit_def)

subsection \<open>The example pages\<close>

lemma filledLogin_formData:
  "formData filledLogin = \<lparr>email = ''a@b.co'', password = ''secret1''\<rparr>"
  by (simp add: filledLogin_def handleChange_login_def mounted_eq initialLogin_def noErrors_def)

lemma filledLogin_guard:
  "loginAttempts filledLogin = 0" "\<not> isBlocked filledLogin" "blockTimer filledLogin = 0"
  by (simp_all add: filledLogin_def handleChange_login_guard mounted_eq initialLogin_def)

lemma reachable_submitEach: "reachable s n \<Longrightarrow> reachable (submitEach rs s) n"
  by (induction rs s rule: submitEach.induct) (simp_all add: reachable_handleSubmit)

lemma reachable_filledLogin: "reachable filledLogin 0"
  unfolding filledLogin_def by (intro reachable_change reachable_mounted)

lemma fifth_rejection_blocks:
  assumes "loginAttempts s = 0" "\<not> isBlocked s" "blockTimer s = 0"
    and "fst (validateForm_login s)"
    and "length rs = 5" "\<forall>r\<in>set rs. snd r \<noteq> Resolved"
  shows "loginAttempts (submitEach (take 4 rs) s) = 4 \<and> \<not> isBlocked (submitEach (take 4 rs) s)"
    and "loginAttempts (submitEach rs s) = 5 \<and> isBlocked (submitEach rs s) \<and>
         blockTimer (submitEach rs s) = 300"
proof -
  let ?s4 = "submitEach (take 4 rs) s"
  have four: "formData ?s4 = formData s \<and>
              loginAttempts ?s4 = loginAttempts s + int (length (take 4 rs)) \<and>
              \<not> isBlocked ?s4 \<and> blockTimer ?s4 = blockTimer s"
    using assms by (intro submitEach_rejections) (auto dest: in_set_takeD)
  then show "loginAttempts ?s4 = 4 \<and> \<not> isBlocked ?s4"
    using assms(1,5) by simp
  obtain onLine outcome where last: "rs ! 4 = (onLine, outcome)"
    by (cases "rs ! 4")
  then obtain m where m: "outcome = Rejected m"
    using assms(5,6) nth_mem [of 4 rs] by (cases outcome) auto
  have rs: "rs = take 4 rs @ [(onLine, outcome)]"
    using assms(5) last take_Suc_conv_app_nth [of 4 rs] by simp
  have valid: "fst (validateForm_login ?s4)"
    using four assms(4) validateForm_login_formData [of ?s4 s] by simp
  have "submitEach rs s = page (handleSubmit_login onLine outcome ?s4)"
    by (subst rs) (simp add: submitEach_append)
  then show "loginAttempts (submitEach rs s) = 5 \<and> isBlocked (submitEach rs s) \<and>
         blockTimer (submitEach rs s) = 300"
    using four valid m assms(1,5)
    by (simp add: handleSubmit_login_valid loginRejected_guard)
qed

lemma fiveRejections_ok:
  "length fiveRejections = 5" "\<forall>r\<in>set fiveRejections. snd r \<noteq> Resolved"
  by (simp_all add: fiveRejections_def)

lemma blockedLogin_guard:
  "loginAttempts blockedLogin = 5" "isBlocked blockedLogin" "blockTimer blockedLogin = 300"
  using fifth_rejection_blocks(2) [OF filledLogin_guard filledLogin_valid fiveRejections_ok]
  by (simp_all add: blockedLogin_def)

lemma reachable_blockedLogin: "reachable blockedLogin 0"
  unfolding blockedLogin_def by (intro reachable_submitEach reachable_filledLogin)

lemma threeFailures_guard:
  "formData threeFailures = formData filledLogin" "loginAttempts threeFailures = 3"
  "\<not> isBlocked threeFailures" "blockTimer threeFailures = 0"
  using submitEach_rejections [of filledLogin "take 3 fiveRejections"]
    filledLogin_guard filledLogin_valid
  by (simp_all add: threeFailures_def fiveRejections_def)

lemma reachable_threeFailures: "reachable threeFailures 0"
  unfolding threeFailures_def by (intro reachable_submitEach reachable_filledLogin)

lemma threeFailures_valid: "fst (validateForm_login threeFailures)"
  using validateForm_login_formData [OF threeFailures_guard(1)] filledLogin_valid by simp

lemma fourFailures_guard:
  "formData fourFailures = formData filledLogin" "loginAttempts fourFailures = 4"
  "\<not> isBlocked fourFailures" "blockTimer fourFailures = 0"
  using submitEach_rejections [of filledLogin "take 4 fiveRejections"]
    filledLogin_guard filledLogin_valid
  by (simp_all add: fourFailures_def fiveRejections_def)

lemma fourFailures_valid: "fst (validateForm_login fourFailures)"
  using validateForm_login_formData [OF fourFailures_guard(1)] filledLogin_valid by simp

lemma reachable_fourFailures: "reachable fourFailures 0"
  unfolding fourFailures_def by (intro reachable_submitEach reachable_filledLogin)

lemma onePending_guard:
  "formData onePending = formData filledLogin" "loginAttempts onePending = 4"
  "\<not> isBlocked onePending" "blockTimer onePending = 0" "isSubmitting onePending"
  using fourFailures_guard fourFailures_valid
  by (simp_all add: onePending_def beginSubmit_valid)

lemma onePending_valid: "fst (validateForm_login onePending)"
  using validateForm_login_formData [OF onePending_guard(1)] filledLogin_valid by simp

lemma reachable_onePending: "reachable onePending (Suc 0)"
  using reachable_submit [OF reachable_fourFailures] fourFailures_guard fourFailures_valid
  by (simp add: onePending_def beginSubmit_calls)

lemma twoPending_guard:
  "loginAttempts twoPending = 4" "\<not> isBlocked twoPending" "blockTimer twoPending = 0"
  using onePending_guard by (simp_all add: twoPending_def beginSubmit_guard)

lemma reachable_twoPending: "reachable twoPending (Suc (Suc 0))"
  using reachable_submit [OF reachable_onePending] onePending_guard onePending_valid
  by (simp add: twoPending_def beginSubmit_calls)

lemma firstRejected_guard:
  "loginAttempts firstRejected = 5" "isBlocked firstRejected" "blockTimer firstRejected = 300"
  using twoPending_guard by (simp_all add: firstRejected_def loginRejected_guard)

lemma reachable_firstRejected: "reachable firstRejected (Suc 0)"
  unfolding firstRejected_def by (intro reachable_rejected reachable_twoPending)

lemma bothRejected_guard:
  "loginAttempts bothRejected = 6" "isBlocked bothRejected" "blockTimer bothRejected = 300"
  using firstRejected_guard by (simp_all add: bothRejected_def loginRejected_guard)

lemma reachable_bothRejected: "reachable bothRejected 0"
  unfolding bothRejected_def by (intro reachable_rejected reachable_firstRejected)

lemma byControls_filledLogin: "reachableByControls filledLogin 0"
  unfolding filledLogin_def
  by (intro byControls_change byControls_mounted)
     (simp_all add: controlsDisabled_def handleChange_login_def Let_def mounted_eq
        initialLogin_def)

lemma filledLogin_submitting: "\<not> isSubmitting filledLogin"
  by (simp add: filledLogin_def handleChange_login_def Let_def mounted_eq initialLogin_def)

lemma byControls_blockedLogin: "reachableByControls (submitEach fiveRejections filledLogin) 0"
  using byControls_filledLogin filledLogin_submitting filledLogin_guard filledLogin_valid
  by (intro byControls_submitEach) (simp_all add: fiveRejections_def)

lemma byControls_threeFailures:
  "reachableByControls (submitEach (take 3 fiveRejections) filledLogin) 0"
  using byControls_filledLogin filledLogin_submitting filledLogin_guard filledLogin_valid
  by (intro byControls_submitEach) (simp_all add: fiveRejections_def)

section \<open>The claims about the login and signup pages\<close>

text \<open>
  C2. From the initial guard state (no attempts, not blocked, no timer), with a form that
  passes validation: after four submits that the backend rejects the page is not blocked;
  after the fifth it is blocked and the timer reads 300; after 300 ticks of the interval
  it is not blocked and the attempts are 0.
\<close>

theorem lockout_after_five_failures:
  assumes "loginAttempts s = 0" "\<not> isBlocked s" "blockTimer s = 0"
    and "fst (validateForm_login s)"
    and "length rs = 5" "\<forall>r\<in>set rs. snd r \<noteq> Resolved"
  shows "\<not> isBlocked (submitEach (take 4 rs) s) \<and>
         isBlocked (submitEach rs s) \<and> blockTimer (submitEach rs s) = 300 \<and>
         \<not> isBlocked ((tick ^^ 300) (submitEach rs s)) \<and>
         loginAttempts ((tick ^^ 300) (submitEach rs s)) = 0"
proof -
  note five = fifth_rejection_blocks [OF assms]
  have "(tick ^^ Suc 299) (submitEach rs s) =
          (submitEach rs s)\<lparr>loginAttempts := 0, isBlocked := False, blockTimer := 0\<rparr>"
    using five(2) by (intro tick_countdown) simp_all
  then show ?thesis
    using five by simp
qed

theorem lockout_after_five_failures_witness:
  "loginAttempts filledLogin = 0 \<and> \<not> isBlocked filledLogin \<and> blockTimer filledLogin = 0 \<and>
   fst (validateForm_login filledLogin) \<and> length fiveRejections = 5 \<and>
   list_all (\<lambda>r. snd r \<noteq> Resolved) fiveRejections \<and>
   \<not> isBlocked (submitEach (take 4 fiveRejections) filledLogin) \<and>
   isBlocked blockedLogin \<and> blockTimer blockedLogin = 300 \<and>
   \<not> isBlocked ((tick ^^ 300) blockedLogin) \<and> loginAttempts ((tick ^^ 300) blockedLogin) = 0"
  using filledLogin_guard filledLogin_valid fiveRejections_ok
    lockout_after_five_failures [OF filledLogin_guard filledLogin_valid fiveRejections_ok]
  by (simp add: blockedLogin_def list_all_iff)

text \<open>
  C4, as amended. From every reachable state in which the page is not blocked, the
  success path (what \<open>handleSubmit\<close> does when \<open>login\<close> resolves) leaves the attempts at
  0, the page not blocked and the timer at 0; and so does a submit of a valid form from
  such a state whose call resolves before any other event.
\<close>

theorem success_resets_when_not_blocked:
  assumes "reachable s n" "\<not> isBlocked s"
  shows "loginAttempts (loginResolved s) = 0 \<and> \<not> isBlocked (loginResolved s) \<and>
         blockTimer (loginResolved s) = 0 \<and>
         (fst (validateForm_login s) \<longrightarrow>
            calls (handleSubmit_login onLine Resolved s) \<noteq> [] \<and>
            loginAttempts (page (handleSubmit_login onLine Resolved s)) = 0 \<and>
            \<not> isBlocked (page (handleSubmit_login onLine Resolved s)) \<and>
            blockTimer (page (handleSubmit_login onLine Resolved s)) = 0)"
  using reachable_coherent [OF assms(1)] assms(2)
  by (simp add: loginResolved_guard coherent_def handleSubmit_login_valid
      handleSubmit_login_calls)

theorem success_resets_when_not_blocked_witness:
  "reachable (page (beginSubmit threeFailures)) (Suc 0) \<and>
   \<not> isBlocked (page (beginSubmit threeFailures)) \<and>
   loginAttempts (page (beginSubmit threeFailures)) = 3 \<and>
   loginAttempts (loginResolved (page (beginSubmit threeFailures))) = 0 \<and>
   \<not> isBlocked (loginResolved (page (beginSubmit threeFailures))) \<and>
   blockTimer (loginResolved (page (beginSubmit threeFailures))) = 0 \<and>
   reachable threeFailures 0 \<and> \<not> isBlocked threeFailures \<and>
   fst (validateForm_login threeFailures) \<and>
   calls (handleSubmit_login True Resolved threeFailures) \<noteq> [] \<and>
   loginAttempts (page (handleSubmit_login True Resolved threeFailures)) = 0 \<and>
   \<not> isBlocked (page (handleSubmit_login True Resolved threeFailures)) \<and>
   blockTimer (page (handleSubmit_login True Resolved threeFailures)) = 0"
proof -
  have r: "reachable (page (beginSubmit threeFailures)) (Suc 0)"
    using reachable_submit [OF reachable_threeFailures] threeFailures_guard threeFailures_valid
    by (simp add: beginSubmit_calls)
  have b: "\<not> isBlocked (page (beginSubmit threeFailures))"
    using threeFailures_guard by (simp add: beginSubmit_guard)
  have t: "\<not> isBlocked threeFailures"
    using threeFailures_guard by simp
  show ?thesis
    using r b success_resets_when_not_blocked [OF r b]
      success_resets_when_not_blocked [OF reachable_threeFailures t, of True]
      threeFailures_guard threeFailures_valid reachable_threeFailures
    by (simp add: beginSubmit_guard)
qed

text \<open>
  C4, as stated, fails on a blocked page. After four failures two submits overlap; when
  the backend rejects the first call the page is blocked with 5 attempts and the timer at
  300, and the second call is still pending. When that call resolves, the success path
  writes the attempts only: the page stays blocked and the timer stays at 300.
\<close>

theorem success_while_blocked_counterexample:
  "reachable firstRejected (Suc 0) \<and> isBlocked firstRejected \<and>
   loginAttempts (loginResolved firstRejected) = 0 \<and>
   isBlocked (loginResolved firstRejected) \<and> blockTimer (loginResolved firstRejected) = 300"
  using reachable_firstRejected firstRejected_guard
  by (simp add: loginResolved_guard)

text \<open>
  C5. While the page is blocked, \<open>handleSubmit\<close> returns before \<open>login\<close> is called:
  it makes no call, records no failure and leaves the whole page as it was.
\<close>

theorem blocked_submit_returns_early:
  "isBlocked s \<Longrightarrow>
     handleSubmit_login onLine outcome s = \<lparr>page = s, calls = [], uncaught = False\<rparr>"
  by (simp add: handleSubmit_login_blocked)

theorem blocked_submit_returns_early_witness:
  "isBlocked blockedLogin \<and>
   handleSubmit_login True (Rejected (Some ''Invalid password'')) blockedLogin =
     \<lparr>page = blockedLogin, calls = [], uncaught = False\<rparr>"
  using blockedLogin_guard(2)
    blocked_submit_returns_early
      [OF blockedLogin_guard(2), of True "Rejected (Some ''Invalid password'')"]
  by simp

text \<open>
  C8. The submit handler of the login form calls \<open>login\<close> only when validation passes,
  which is when the email is not empty and matches the expression and the password is not
  empty and has at least 6 characters; the submit handler of the signup form calls
  \<open>signup\<close> only when its validation passes. When validation fails either handler
  returns with no call made.
\<close>

theorem backend_called_only_when_valid:
  "(calls (handleSubmit_login onLine outcome s) \<noteq> [] \<longrightarrow>
      email (formData s) \<noteq> [] \<and> test emailRegex (email (formData s)) \<and>
      password (formData s) \<noteq> [] \<and> 6 \<le> length (password (formData s))) \<and>
   (fst (validateForm_login s) \<longleftrightarrow>
      email (formData s) \<noteq> [] \<and> test emailRegex (email (formData s)) \<and>
      password (formData s) \<noteq> [] \<and> 6 \<le> length (password (formData s))) \<and>
   (\<not> fst (validateForm_login s) \<longrightarrow>
      calls (handleSubmit_login onLine outcome s) = [] \<and>
      \<not> uncaught (handleSubmit_login onLine outcome s)) \<and>
   (calls (handleSubmit_signup outcome' t) \<noteq> [] \<longrightarrow> fst (validateForm_signup t)) \<and>
   (\<not> fst (validateForm_signup t) \<longrightarrow>
      calls (handleSubmit_signup outcome' t) = [] \<and>
      \<not> uncaught (handleSubmit_signup outcome' t))"
proof -
  have "\<not> fst (validateForm_login s) \<Longrightarrow> \<not> uncaught (handleSubmit_login onLine outcome s)"
    by (simp add: handleSubmit_login_def beginSubmit_calls beginSubmit_uncaught Let_def)
  moreover
  have "\<not> fst (validateForm_signup t) \<Longrightarrow> \<not> uncaught (handleSubmit_signup outcome' t)"
    by (auto simp add: handleSubmit_signup_def split: prod.splits)
  ultimately show ?thesis
    using validateForm_login_iff [of s]
    by (simp add: handleSubmit_login_calls handleSubmit_signup_calls)
qed

theorem backend_called_only_when_valid_witness:
  "fst (validateForm_login filledLogin) \<and>
   calls (handleSubmit_login True Resolved filledLogin) = [[''a@b.co'', ''secret1'']] \<and>
   \<not> fst (validateForm_login mounted) \<and>
   calls (handleSubmit_login True Resolved mounted) = [] \<and>
   fst (validateForm_signup filledSignup) \<and>
   calls (handleSubmit_signup SignedUp filledSignup) =
     [[''Asha'', ''Rao'', ''a@b.co'', ''Secret12'', ''+91 (0) 23-4'']] \<and>
   \<not> fst (validateForm_signup weakSignup) \<and>
   calls (handleSubmit_signup SignedUp weakSignup) = []"
  using backend_called_only_when_valid [of True Resolved mounted SignedUp weakSignup]
    backend_called_only_when_valid [of True Resolved filledLogin SignedUp filledSignup]
    filledLogin_valid filledSignup_valid mounted_invalid weakSignup_invalid
    filledLogin_guard(2)
  by (simp add: handleSubmit_login_calls handleSubmit_signup_calls filledLogin_formData)
     (simp add: filledSignup_def)

text \<open>
  C10, as amended. Every state the login page reaches from its mount through changes and
  submits that come through its controls (which are disabled while a call of \<open>login\<close>
  is pending or the page is blocked), answers of the backend and ticks of the interval has
  between 0 and 5 attempts and a timer that is not negative; blocked, it has 5 attempts
  and a timer of at most 300; not blocked, its timer is 0.
\<close>

theorem guard_invariant_by_controls:
  assumes "reachableByControls s n"
  shows "0 \<le> loginAttempts s \<and> loginAttempts s \<le> 5 \<and> 0 \<le> blockTimer s \<and>
         (isBlocked s \<longrightarrow> loginAttempts s = 5 \<and> blockTimer s \<le> 300) \<and>
         (\<not> isBlocked s \<longrightarrow> blockTimer s = 0)"
  using byControls_settled [OF assms] by (auto simp add: settled_def split: if_splits)

theorem guard_invariant_by_controls_witness:
  "reachableByControls blockedLogin 0 \<and> isBlocked blockedLogin \<and>
   loginAttempts blockedLogin = 5 \<and> blockTimer blockedLogin = 300 \<and>
   reachableByControls threeFailures 0 \<and> \<not> isBlocked threeFailures \<and>
   loginAttempts threeFailures = 3 \<and> blockTimer threeFailures = 0"
proof -
  have b: "reachableByControls blockedLogin 0"
    unfolding blockedLogin_def by (rule byControls_blockedLogin)
  have t: "reachableByControls threeFailures 0"
    unfolding threeFailures_def by (rule byControls_threeFailures)
  show ?thesis
    using b t guard_invariant_by_controls [OF b] guard_invariant_by_controls [OF t]
      blockedLogin_guard threeFailures_guard
    by simp
qed

text \<open>
  C10, as stated, fails for submit events that do not come through the controls:
  \<open>handleSubmit\<close> tests \<open>isBlocked\<close> only. After four failures a submit event arrives
  while the call of the one before is pending (\<open>isSubmitting\<close> holds), and a second call
  is made; when the backend has rejected both, the page is blocked with 6 attempts.
\<close>

theorem overlapping_submits_counterexample:
  "reachable onePending (Suc 0) \<and> isSubmitting onePending \<and>
   calls (beginSubmit onePending) = [[''a@b.co'', ''secret1'']] \<and>
   reachable bothRejected 0 \<and> isBlocked bothRejected \<and> loginAttempts bothRejected = 6 \<and>
   blockTimer bothRejected = 300"
  using reachable_onePending onePending_guard onePending_valid reachable_bothRejected
    bothRejected_guard filledLogin_formData
  by (simp add: beginSubmit_calls)

end
